theory Spec2Isabelle
  imports
    Main
    "HOL-Library.Char_ord"
    "HOL-Library.List_Lexorder"
    "HOL-Library.Multiset"
begin

section \<open>Fixture audit of \<open>scripts/audit_vercel_fixtures.py\<close>\<close>

text \<open>
  The script walks two directory trees, matches upstream fixture files against local ones
  by file name or by case directory, and compares SHA-256 digests of matched files.
  The embedding follows the script function by function.  What the script takes from the
  Python library is modelled here as far as the script relies on it:
  \<^item> a \<open>Path\<close> is the list of its parts;
  \<^item> the file system is a tree of directories and regular files (no symbolic links), and a
    path is resolved from the tree's root, part by part; the tree does not change while the
    script runs, and every regular file can be read;
  \<^item> \<open>hashlib.sha256\<close> is a parameter: any hasher with \<open>new\<close>, \<open>update\<close>, \<open>hexdigest\<close>;
  \<^item> an exception is a value of type \<open>error\<close>, and a function that may raise returns a sum.
\<close>

subsection \<open>Paths and the file system\<close>

type_synonym bytes = "char list"

type_synonym path = "string list"

datatype node = File bytes | Dir "(string \<times> node) list"

datatype error = FileNotFoundError | IsADirectoryError | NotADirectoryError

text \<open>The entry a path denotes. Of two siblings of one name the first is found; a
  well-formed tree has none (\<open>wf_node\<close>).\<close>

fun resolve :: "node \<Rightarrow> path \<Rightarrow> node option" where
  "resolve nd [] = Some nd"
| "resolve (File bs) (n # ns) = None"
| "resolve (Dir es) (n # ns) = (case map_of es n of None \<Rightarrow> None | Some c \<Rightarrow> resolve c ns)"

fun wf_node :: "node \<Rightarrow> bool" where
  "wf_node (File bs) = True"
| "wf_node (Dir es) = (distinct (map fst es) \<and> list_all (\<lambda>e. wf_node (snd e)) es)"

definition is_dir :: "node \<Rightarrow> path \<Rightarrow> bool" where
  "is_dir fs p = (case resolve fs p of Some (Dir es) \<Rightarrow> True | _ \<Rightarrow> False)"

definition is_file :: "node \<Rightarrow> path \<Rightarrow> bool" where
  "is_file fs p = (case resolve fs p of Some (File bs) \<Rightarrow> True | _ \<Rightarrow> False)"

text \<open>\<open>Path.name\<close>: the last part, empty for a path without parts.\<close>

definition path_name :: "path \<Rightarrow> string" where
  "path_name p = (if p = [] then [] else last p)"

text \<open>\<open>sep.join(parts)\<close> and \<open>s.split(sep)\<close> for a separator of one character.\<close>

fun join :: "string \<Rightarrow> string list \<Rightarrow> string" where
  "join sep [] = []"
| "join sep [s] = s"
| "join sep (s # t # ss) = s @ sep @ join sep (t # ss)"

fun split :: "char \<Rightarrow> string \<Rightarrow> string list" where
  "split sep [] = [[]]"
| "split sep (c # cs) =
     (if c = sep then [] # split sep cs
      else (case split sep cs of [] \<Rightarrow> [[c]] | s # ss \<Rightarrow> (c # s) # ss))"

text \<open>\<open>str(path)\<close> of a POSIX path: the parts joined by \<open>/\<close>, the root part \<open>/\<close> of an
  absolute path written once, and \<open>.\<close> for the path without parts. Strings are compared
  character by character (\<open>Char_ord\<close>, \<open>List_Lexorder\<close>), as Python compares \<open>str\<close>.\<close>

definition path_str :: "path \<Rightarrow> string" where
  "path_str p =
     (if p = [] then ''.''
      else if hd p = ''/'' then ''/'' @ join ''/'' (tl p)
      else join ''/'' p)"

text \<open>\<open>p.relative_to(base)\<close>; \<open>None\<close> stands for the \<open>ValueError\<close> raised when \<open>base\<close> does
  not lead to \<open>p\<close>.\<close>

fun relative_to :: "path \<Rightarrow> path \<Rightarrow> path option" where
  "relative_to p [] = Some p"
| "relative_to [] (b # bs) = None"
| "relative_to (a # as) (b # bs) = (if a = b then relative_to as bs else None)"

text \<open>All entries strictly below a directory, in the order in which \<open>pathlib\<close> yields
  them for \<open>rglob\<close>: the entries of the directory as it lists them, then, child by child,
  the entries below each child. The listing of a directory is the list of its children.\<close>

fun walk :: "path \<Rightarrow> node \<Rightarrow> path list" where
  "walk p (File bs) = []"
| "walk p (Dir es) =
     map (\<lambda>e. p @ [fst e]) es @ concat (map (\<lambda>e. walk (p @ [fst e]) (snd e)) es)"

text \<open>\<open>p.rglob(pattern)\<close> for the two patterns of the script: \<open>*\<close> matches every entry, a
  pattern without wildcard the entries of that name. Nothing is yielded when \<open>p\<close> is not
  an existing directory.\<close>

definition rglob :: "node \<Rightarrow> path \<Rightarrow> string \<Rightarrow> path list" where
  "rglob fs p pattern =
     (case resolve fs p of
        None \<Rightarrow> []
      | Some nd \<Rightarrow> filter (\<lambda>q. pattern = ''*'' \<or> path_name q = pattern) (walk p nd))"

text \<open>The tree with every file emptied. Two trees that agree after emptying differ in
  file contents only, so a function that gives one result on both reads no content.\<close>

fun without_content :: "node \<Rightarrow> node" where
  "without_content (File bs) = File []"
| "without_content (Dir es) = Dir (map (\<lambda>e. (fst e, without_content (snd e))) es)"

subsection \<open>UpstreamFixture\<close>

record UpstreamFixture =
  package :: string
  path :: path

definition name :: "UpstreamFixture \<Rightarrow> string" where
  "name f = path_name (path f)"

definition case_id :: "UpstreamFixture \<Rightarrow> string" where
  "case_id f =
     (let parts = split (CHR ''.'') (name f) in
      if length parts \<ge> 3 \<and> drop (length parts - 2) parts = [''chunks'', ''txt'']
      then join ''.'' (take (length parts - 2) parts)
      else if length parts \<ge> 2 then join ''.'' (butlast parts)
      else name f)"

subsection \<open>sha256\<close>

record 'h hashlib =
  new :: 'h
  update :: "'h \<Rightarrow> bytes \<Rightarrow> 'h"
  hexdigest :: "'h \<Rightarrow> string"

text \<open>The chunks \<open>f.read(1024 * 1024)\<close> returns until it returns the empty one.\<close>

function read_chunks :: "bytes \<Rightarrow> bytes list" where
  "read_chunks bs =
     (if bs = [] then [] else take (1024 * 1024) bs # read_chunks (drop (1024 * 1024) bs))"
  by pat_completeness auto
termination
  by (relation "measure length") auto

declare read_chunks.simps [simp del]

text \<open>\<open>path.open("rb")\<close> and the bytes read from it. Opening fails on a directory, on a
  path that runs through a regular file, and on a path that does not exist.\<close>

definition open_rb :: "node \<Rightarrow> path \<Rightarrow> error + bytes" where
  "open_rb fs p =
     (case resolve fs p of
        Some (File bs) \<Rightarrow> Inr bs
      | Some (Dir es) \<Rightarrow> Inl IsADirectoryError
      | None \<Rightarrow>
          if list_ex (\<lambda>i. is_file fs (take i p)) [0..<length p] then Inl NotADirectoryError
          else Inl FileNotFoundError)"

text \<open>The hasher fed with the chunks of a file, and its hex digest.\<close>

definition digest :: "'h hashlib \<Rightarrow> bytes \<Rightarrow> string" where
  "digest H bs = hexdigest H (foldl (update H) (new H) (read_chunks bs))"

text \<open>What \<open>sha256(path)\<close> returns or raises.\<close>

definition file_digest :: "'h hashlib \<Rightarrow> node \<Rightarrow> path \<Rightarrow> error + string" where
  "file_digest H fs p = (case open_rb fs p of Inl e \<Rightarrow> Inl e | Inr bs \<Rightarrow> Inr (digest H bs))"

text \<open>\<open>sha256(path)\<close> with its effect: the last argument is the log of the files read so
  far, and a call that returns has appended its path to it.\<close>

definition sha256 :: "'h hashlib \<Rightarrow> node \<Rightarrow> path \<Rightarrow> path list \<Rightarrow> error + (string \<times> path list)" where
  "sha256 H fs p log =
     (case file_digest H fs p of Inl e \<Rightarrow> Inl e | Inr h \<Rightarrow> Inr (h, log @ [p]))"

subsection \<open>The two enumerations\<close>

definition package_of :: "path \<Rightarrow> path \<Rightarrow> string" where
  "package_of fixtures_dir packages_root =
     (case relative_to fixtures_dir packages_root of
        Some (part # parts) \<Rightarrow> part
      | _ \<Rightarrow> ''unknown'')"

definition iter_upstream_fixtures :: "node \<Rightarrow> path \<Rightarrow> UpstreamFixture list" where
  "iter_upstream_fixtures fs ai_root =
     (let packages_root = ai_root @ [''packages''];
          out = concat (map (\<lambda>fixtures_dir.
                  if \<not> is_dir fs fixtures_dir then []
                  else map (\<lambda>file. \<lparr>package = package_of fixtures_dir packages_root, path = file\<rparr>)
                         (filter (is_file fs) (rglob fs fixtures_dir ''*'')))
                (rglob fs packages_root ''__fixtures__''))
      in sort_key (\<lambda>f. path_str (path f)) out)"

text \<open>\<open>d.get(k, [])\<close>.\<close>

definition dict_get :: "('k \<rightharpoonup> 'v list) \<Rightarrow> 'k \<Rightarrow> 'v list" where
  "dict_get d k = (case d k of None \<Rightarrow> [] | Some v \<Rightarrow> v)"

definition index_entry ::
  "node \<Rightarrow> (string \<rightharpoonup> path list) \<times> string set \<Rightarrow> path \<Rightarrow> (string \<rightharpoonup> path list) \<times> string set" where
  "index_entry fs acc p =
     (case acc of (file_index, dir_names) \<Rightarrow>
        if is_dir fs p then (file_index, insert (path_name p) dir_names)
        else if is_file fs p
        then (file_index(path_name p \<mapsto> dict_get file_index (path_name p) @ [p]), dir_names)
        else (file_index, dir_names))"

definition build_siumai_fixture_index ::
  "node \<Rightarrow> path \<Rightarrow> (string \<rightharpoonup> path list) \<times> string set" where
  "build_siumai_fixture_index fs siumai_root =
     (let fixtures_root = siumai_root @ [''siumai'', ''tests'', ''fixtures'']
      in foldl (index_entry fs) (Map.empty, {}) (rglob fs fixtures_root ''*''))"

subsection \<open>Case ids and case directories\<close>

definition startswith :: "string \<Rightarrow> string \<Rightarrow> bool" where
  "startswith s pre = (take (length pre) s = pre)"

definition normalize_case_id :: "string \<Rightarrow> string \<Rightarrow> string" where
  "normalize_case_id pkg cid =
     (if pkg = ''openai'' \<and> startswith cid ''openai-'' then drop (length ''openai-'') cid
      else if pkg = ''xai'' \<and> startswith cid ''xai-'' then drop (length ''xai-'') cid
      else cid)"

definition case_dir_exists :: "string set \<Rightarrow> string \<Rightarrow> bool" where
  "case_dir_exists dir_names normalized_case_id =
     (if normalized_case_id \<in> dir_names then True
      else (let pre = normalized_case_id @ ''-''
            in \<exists>nm \<in> dir_names. startswith nm pre))"

subsection \<open>The classification loop of \<open>main\<close>\<close>

text \<open>The six lists \<open>main\<close> fills, and the log of the files read so far.\<close>

record audit =
  covered_by_file :: "UpstreamFixture list"
  covered_by_file_multi :: "(UpstreamFixture \<times> path list \<times> path list) list"
  covered_by_case_dir :: "UpstreamFixture list"
  missing :: "UpstreamFixture list"
  ambiguous :: "(UpstreamFixture \<times> path list) list"
  drift :: "(UpstreamFixture \<times> path) list"
  opened :: "path list"

definition start :: audit where
  "start = \<lparr>covered_by_file = [], covered_by_file_multi = [], covered_by_case_dir = [],
            missing = [], ambiguous = [], drift = [], opened = []\<rparr>"

text \<open>\<open>[c for c in candidates if sha256(c) == up_hash]\<close>\<close>

fun matching_of ::
  "'h hashlib \<Rightarrow> node \<Rightarrow> string \<Rightarrow> path list \<Rightarrow> path list \<Rightarrow> error + (path list \<times> path list)" where
  "matching_of H fs up_hash [] log = Inr ([], log)"
| "matching_of H fs up_hash (c # cs) log =
     (case sha256 H fs c log of
        Inl e \<Rightarrow> Inl e
      | Inr (h, log1) \<Rightarrow>
          (case matching_of H fs up_hash cs log1 of
             Inl e \<Rightarrow> Inl e
           | Inr (m, log2) \<Rightarrow> Inr (if h = up_hash then c # m else m, log2)))"

text \<open>The body of \<open>for f in upstream\<close>.\<close>

definition classify ::
  "'h hashlib \<Rightarrow> node \<Rightarrow> (string \<rightharpoonup> path list) \<Rightarrow> string set \<Rightarrow> audit \<Rightarrow> UpstreamFixture
     \<Rightarrow> error + audit" where
  "classify H fs file_index dir_names a f =
     (let candidates = dict_get file_index (name f) in
      if length candidates = 1 then
        (let a1 = a\<lparr>covered_by_file := covered_by_file a @ [f]\<rparr>;
             si = candidates ! 0
         in case sha256 H fs (path f) (opened a1) of
              Inl e \<Rightarrow> Inl e
            | Inr (hu, log1) \<Rightarrow>
                (case sha256 H fs si log1 of
                   Inl e \<Rightarrow> Inl e
                 | Inr (hs, log2) \<Rightarrow>
                     Inr (if hu \<noteq> hs then a1\<lparr>drift := drift a1 @ [(f, si)], opened := log2\<rparr>
                          else a1\<lparr>opened := log2\<rparr>)))
      else if length candidates > 1 then
        (case sha256 H fs (path f) (opened a) of
           Inl e \<Rightarrow> Inl e
         | Inr (up_hash, log1) \<Rightarrow>
             (case matching_of H fs up_hash candidates log1 of
                Inl e \<Rightarrow> Inl e
              | Inr (matching, log2) \<Rightarrow>
                  Inr (if matching \<noteq> []
                       then a\<lparr>covered_by_file_multi :=
                                 covered_by_file_multi a @ [(f, matching, candidates)],
                               opened := log2\<rparr>
                       else a\<lparr>ambiguous := ambiguous a @ [(f, candidates)], opened := log2\<rparr>)))
      else
        (let normalized_case_id = normalize_case_id (package f) (case_id f) in
         if case_dir_exists dir_names normalized_case_id
         then Inr (a\<lparr>covered_by_case_dir := covered_by_case_dir a @ [f]\<rparr>)
         else Inr (a\<lparr>missing := missing a @ [f]\<rparr>)))"

fun classify_all ::
  "'h hashlib \<Rightarrow> node \<Rightarrow> (string \<rightharpoonup> path list) \<Rightarrow> string set \<Rightarrow> audit \<Rightarrow> UpstreamFixture list
     \<Rightarrow> error + audit" where
  "classify_all H fs file_index dir_names a [] = Inr a"
| "classify_all H fs file_index dir_names a (f # upstream) =
     (case classify H fs file_index dir_names a f of
        Inl e \<Rightarrow> Inl e
      | Inr a1 \<Rightarrow> classify_all H fs file_index dir_names a1 upstream)"

text \<open>The report's \<open>other = [c for c in all_cands if c not in matching]\<close>.\<close>

definition other :: "path list \<Rightarrow> path list \<Rightarrow> path list" where
  "other all_cands matching = filter (\<lambda>c. c \<notin> set matching) all_cands"

text \<open>\<open>main\<close> from the parsed arguments to the buckets it reports: \<open>ignore\<close> is the set
  parsed from \<open>--ignore-packages\<close>. Of the report only \<open>other\<close> is modelled; the printing is not.\<close>

definition main :: "'h hashlib \<Rightarrow> node \<Rightarrow> path \<Rightarrow> path \<Rightarrow> string set \<Rightarrow> error + audit" where
  "main H fs ai_root siumai_root ignore =
     (let upstream = filter (\<lambda>f. package f \<notin> ignore) (iter_upstream_fixtures fs ai_root);
          (file_index, dir_names) = build_siumai_fixture_index fs siumai_root
      in classify_all H fs file_index dir_names start upstream)"

subsection \<open>Example inputs\<close>

text \<open>A hasher for the examples: the digest of a file is its content, so two files have
  one digest exactly when they have the same bytes.\<close>

definition content_hash :: "string hashlib" where
  "content_hash = \<lparr>new = [], update = (\<lambda>h chunk. h @ chunk), hexdigest = (\<lambda>h. h)\<rparr>"

definition fx_tool :: UpstreamFixture where
  "fx_tool = \<lparr>package = ''anthropic'', path = [''anthropic-json-tool.1.chunks.txt'']\<rparr>"

definition fx_json :: UpstreamFixture where
  "fx_json = \<lparr>package = ''openai'', path = [''foo.1.json'']\<rparr>"

definition fx_readme :: UpstreamFixture where
  "fx_readme = \<lparr>package = ''openai'', path = [''README'']\<rparr>"

definition fx_chunks_txt :: UpstreamFixture where
  "fx_chunks_txt = \<lparr>package = ''anthropic'', path = [''chunks.txt'']\<rparr>"

text \<open>An upstream tree under \<open>ai\<close> and a local tree under \<open>si\<close>. Upstream there are two
  fixtures matched by a case directory, one matched by a file of the same bytes, one
  by a file of other bytes, one with two candidates of which one has the same bytes, one
  with two candidates of other bytes, one without any match, and one in the package
  \<open>langchain\<close>.\<close>

definition fs_example :: node where
  "fs_example = Dir
     [(''ai'', Dir [(''packages'', Dir
        [(''openai'', Dir [(''__fixtures__'', Dir [(''openai-foo.1.json'', File ''a'')])]),
         (''xai'', Dir [(''__fixtures__'', Dir [(''xai-bar.1.json'', File ''b'')])]),
         (''anthropic'', Dir [(''__fixtures__'', Dir
            [(''baz.1.chunks.txt'', File ''c''),
             (''drift.json'', File ''d''),
             (''dup.json'', File ''e''),
             (''amb.json'', File ''f''),
             (''gone.json'', File ''g'')])]),
         (''langchain'', Dir [(''__fixtures__'', Dir [(''l.json'', File ''h'')])])])]),
      (''si'', Dir [(''siumai'', Dir [(''tests'', Dir [(''fixtures'', Dir
        [(''foo.1'', Dir [(''anything.json'', File ''x'')]),
         (''bar.1-json'', Dir [(''x'', File ''y'')]),
         (''baz.1.chunks.txt'', File ''c''),
         (''drift.json'', File ''D''),
         (''d1'', Dir [(''dup.json'', File ''e''), (''amb.json'', File ''1'')]),
         (''d2'', Dir [(''dup.json'', File ''E''), (''amb.json'', File ''2'')])])])])])]"

definition up_anthropic :: "string \<Rightarrow> UpstreamFixture" where
  "up_anthropic nm =
     \<lparr>package = ''anthropic'', path = [''ai'', ''packages'', ''anthropic'', ''__fixtures__'', nm]\<rparr>"

definition up_openai :: UpstreamFixture where
  "up_openai = \<lparr>package = ''openai'',
                path = [''ai'', ''packages'', ''openai'', ''__fixtures__'', ''openai-foo.1.json'']\<rparr>"

definition up_xai :: UpstreamFixture where
  "up_xai = \<lparr>package = ''xai'',
             path = [''ai'', ''packages'', ''xai'', ''__fixtures__'', ''xai-bar.1.json'']\<rparr>"

definition up_langchain :: UpstreamFixture where
  "up_langchain = \<lparr>package = ''langchain'',
                   path = [''ai'', ''packages'', ''langchain'', ''__fixtures__'', ''l.json'']\<rparr>"

definition si_path :: "string list \<Rightarrow> path" where
  "si_path rel = [''si'', ''siumai'', ''tests'', ''fixtures''] @ rel"

text \<open>One upstream fixture with two local candidates, one of them of the same bytes.\<close>

definition fs_multi :: node where
  "fs_multi = Dir
     [(''ai'', Dir [(''packages'', Dir
        [(''anthropic'', Dir [(''__fixtures__'', Dir [(''dup.json'', File ''e'')])])])]),
      (''si'', Dir [(''siumai'', Dir [(''tests'', Dir [(''fixtures'', Dir
        [(''d1'', Dir [(''dup.json'', File ''e'')]),
         (''d2'', Dir [(''dup.json'', File ''E'')])])])])])]"

text \<open>A directory \<open>__fixtures__\<close> inside another one.\<close>

definition fs_nested :: node where
  "fs_nested = Dir
     [(''ai'', Dir [(''packages'', Dir
        [(''openai'', Dir [(''__fixtures__'', Dir
           [(''a.json'', File ''a''),
            (''sub'', Dir [(''__fixtures__'', Dir [(''b.json'', File ''b'')])])])])])])]"

section \<open>Case ids\<close>

subsection \<open>Splitting and joining\<close>

lemma split_not_Nil: "split c s \<noteq> []"
  by (induction s) (auto split: list.splits)

lemma split_no_sep: "c \<notin> set s \<Longrightarrow> split c s = [s]"
  by (induction s) auto

lemma split_append_sep: "split c (a @ c # b) = split c a @ split c b"
proof (induction a)
  case Nil
  then show ?case by simp
next
  case (Cons x a)
  then show ?case
    using split_not_Nil [of c a] by (cases "split c a") auto
qed

lemma join_split: "join [c] (split c s) = s"
proof (induction s)
  case Nil
  then show ?case by simp
next
  case (Cons x s)
  show ?case
  proof (cases "split c s")
    case Nil
    then show ?thesis using split_not_Nil [of c s] by simp
  next
    case (Cons t ts)
    then show ?thesis using Cons.IH by (cases ts) auto
  qed
qed

lemma join_snoc: "ss \<noteq> [] \<Longrightarrow> join sep (ss @ [t]) = join sep ss @ sep @ t"
  by (induction sep ss rule: join.induct) auto

lemma length_split: "length (split c s) = Suc (length (filter (\<lambda>x. x = c) s))"
  by (induction s) (auto split: list.splits simp: split_not_Nil)

lemma sep_notin_segments: "seg \<in> set (split c s) \<Longrightarrow> c \<notin> set seg"
  by (induction s arbitrary: seg) (auto split: if_splits list.splits)

subsection \<open>\<open>case_id\<close>\<close>

lemma case_id_chunks:
  assumes "split (CHR ''.'') (name f) = ss @ [''chunks'', ''txt'']" "ss \<noteq> []"
  shows "case_id f = join ''.'' ss"
  using assms by (cases ss) (auto simp: case_id_def Let_def)

lemma case_id_ext:
  assumes "length (split (CHR ''.'') (name f)) \<ge> 2"
    "\<not> (\<exists>ss. ss \<noteq> [] \<and> split (CHR ''.'') (name f) = ss @ [''chunks'', ''txt''])"
  shows "case_id f = join ''.'' (butlast (split (CHR ''.'') (name f)))"
proof -
  let ?p = "split (CHR ''.'') (name f)"
  have "\<not> (length ?p \<ge> 3 \<and> drop (length ?p - 2) ?p = [''chunks'', ''txt''])"
  proof
    assume a: "length ?p \<ge> 3 \<and> drop (length ?p - 2) ?p = [''chunks'', ''txt'']"
    then have "?p = take (length ?p - 2) ?p @ [''chunks'', ''txt'']"
      by (metis append_take_drop_id)
    moreover have "take (length ?p - 2) ?p \<noteq> []" using a by auto
    ultimately show False using assms(2) by blast
  qed
  then show ?thesis using assms(1) by (auto simp: case_id_def Let_def)
qed

lemma case_id_no_dot: "CHR ''.'' \<notin> set (name f) \<Longrightarrow> case_id f = name f"
  by (simp add: case_id_def split_no_sep)

lemma case_id_strip_chunks_txt:
  assumes "name f = b @ ''.chunks.txt''"
  shows "case_id f = b"
proof -
  have "split (CHR ''.'') (name f) = split (CHR ''.'') b @ split (CHR ''.'') ''chunks.txt''"
    using split_append_sep [of "CHR ''.''" b "''chunks.txt''"] assms by simp
  then have "split (CHR ''.'') (name f) = split (CHR ''.'') b @ [''chunks'', ''txt'']"
    by simp
  then have "case_id f = join ''.'' (split (CHR ''.'') b)"
    by (rule case_id_chunks) (rule split_not_Nil)
  then show ?thesis by (simp add: join_split)
qed

text \<open>
  The file name \<open>chunks.txt\<close> has exactly the two segments \<open>chunks\<close> and \<open>txt\<close>. No segment
  comes before them, so stripping the pair would leave the empty case id. The script
  strips the pair only from a name of at least three segments (\<open>len(parts) >= 3\<close>), and
  here it strips the extension alone: the case id is \<open>chunks\<close>.
\<close>

theorem case_id_chunks_txt_counterexample:
  "split (CHR ''.'') (name fx_chunks_txt) = [] @ [''chunks'', ''txt'']
   \<and> case_id fx_chunks_txt \<noteq> join ''.'' []
   \<and> case_id fx_chunks_txt = ''chunks''"
  by (simp add: case_id_def name_def path_name_def fx_chunks_txt_def)

text \<open>
  C4, amended. The segments of a file name are its parts between dots. If there are at
  least three segments and the last two are \<open>chunks\<close> and \<open>txt\<close> (the name ends in
  \<open>.chunks.txt\<close>), the case id is the segments before those two, joined by dots.
  Otherwise, if there are two or more segments, it is all segments but the last, joined by
  dots. A name of one segment has no dot and is its own case id.
  \<open>anthropic-json-tool.1.chunks.txt\<close> has the case id \<open>anthropic-json-tool.1\<close>.
\<close>

theorem case_id_segments:
  assumes "segs = split (CHR ''.'') (name f)"
  shows "join ''.'' segs = name f \<and> (\<forall>s \<in> set segs. CHR ''.'' \<notin> set s)
    \<and> (\<forall>ss. ss \<noteq> [] \<and> segs = ss @ [''chunks'', ''txt''] \<longrightarrow> case_id f = join ''.'' ss)
    \<and> (\<forall>b. name f = b @ ''.chunks.txt'' \<longrightarrow> case_id f = b)
    \<and> (2 \<le> length segs \<and> \<not> (\<exists>ss. ss \<noteq> [] \<and> segs = ss @ [''chunks'', ''txt''])
         \<longrightarrow> case_id f = join ''.'' (butlast segs))
    \<and> (length segs < 2 \<longrightarrow> CHR ''.'' \<notin> set (name f) \<and> case_id f = name f)
    \<and> (name f = ''anthropic-json-tool.1.chunks.txt'' \<longrightarrow> case_id f = ''anthropic-json-tool.1'')"
proof -
  have "join ''.'' segs = name f"
    using join_split [of "CHR ''.''" "name f"] assms by simp
  moreover have "\<forall>s \<in> set segs. CHR ''.'' \<notin> set s"
    using sep_notin_segments assms by blast
  moreover have "\<forall>ss. ss \<noteq> [] \<and> segs = ss @ [''chunks'', ''txt''] \<longrightarrow> case_id f = join ''.'' ss"
  proof (intro allI impI)
    fix ss assume "ss \<noteq> [] \<and> segs = ss @ [''chunks'', ''txt'']"
    then have "split (CHR ''.'') (name f) = ss @ [''chunks'', ''txt'']" "ss \<noteq> []"
      using assms by simp_all
    then show "case_id f = join ''.'' ss" by (rule case_id_chunks)
  qed
  moreover have strip: "\<forall>b. name f = b @ ''.chunks.txt'' \<longrightarrow> case_id f = b"
    using case_id_strip_chunks_txt by blast
  moreover have "2 \<le> length segs \<and> \<not> (\<exists>ss. ss \<noteq> [] \<and> segs = ss @ [''chunks'', ''txt''])
      \<longrightarrow> case_id f = join ''.'' (butlast segs)"
    using case_id_ext [of f] assms by blast
  moreover have "length segs < 2 \<longrightarrow> CHR ''.'' \<notin> set (name f) \<and> case_id f = name f"
  proof
    assume "length segs < 2"
    then have "filter (\<lambda>x. x = CHR ''.'') (name f) = []"
      using assms by (simp add: length_split)
    then have "CHR ''.'' \<notin> set (name f)"
      by (auto simp: filter_empty_conv)
    then show "CHR ''.'' \<notin> set (name f) \<and> case_id f = name f"
      by (simp add: case_id_no_dot)
  qed
  moreover have "name f = ''anthropic-json-tool.1.chunks.txt'' \<longrightarrow> case_id f = ''anthropic-json-tool.1''"
  proof
    assume "name f = ''anthropic-json-tool.1.chunks.txt''"
    then have "name f = ''anthropic-json-tool.1'' @ ''.chunks.txt''" by simp
    then show "case_id f = ''anthropic-json-tool.1''" by (rule case_id_strip_chunks_txt)
  qed
  ultimately show ?thesis by (intro conjI)
qed

theorem case_id_segments_witness:
  "case_id fx_tool = ''anthropic-json-tool.1''
   \<and> case_id fx_json = ''foo.1''
   \<and> case_id fx_readme = ''README''"
proof -
  have t: "split (CHR ''.'') (name fx_tool) = [''anthropic-json-tool'', ''1''] @ [''chunks'', ''txt'']"
    by (simp add: name_def path_name_def fx_tool_def)
  have "case_id fx_tool = join ''.'' [''anthropic-json-tool'', ''1'']"
    using case_id_segments [OF refl, of fx_tool] t by blast
  then have 1: "case_id fx_tool = ''anthropic-json-tool.1''" by simp
  have j: "split (CHR ''.'') (name fx_json) = [''foo'', ''1'', ''json'']"
    by (simp add: name_def path_name_def fx_json_def)
  have "2 \<le> length (split (CHR ''.'') (name fx_json))
        \<and> \<not> (\<exists>ss. ss \<noteq> [] \<and> split (CHR ''.'') (name fx_json) = ss @ [''chunks'', ''txt''])"
    unfolding j by simp
  then have "case_id fx_json = join ''.'' (butlast (split (CHR ''.'') (name fx_json)))"
    using case_id_segments [OF refl, of fx_json] by blast
  then have 2: "case_id fx_json = ''foo.1''" unfolding j by simp
  have r: "split (CHR ''.'') (name fx_readme) = [''README'']"
    by (simp add: name_def path_name_def fx_readme_def)
  have "length (split (CHR ''.'') (name fx_readme)) < 2" unfolding r by simp
  then have "case_id fx_readme = name fx_readme"
    using case_id_segments [OF refl, of fx_readme] by blast
  then have 3: "case_id fx_readme = ''README''"
    by (simp add: name_def path_name_def fx_readme_def)
  show ?thesis using 1 2 3 by simp
qed

section \<open>Normalized case ids and case directories\<close>

lemma startswith_iff: "startswith s pre \<longleftrightarrow> (\<exists>r. s = pre @ r)"
  unfolding startswith_def
  by (metis append_eq_conv_conj append_take_drop_id)

lemma normalize_strip_openai: "normalize_case_id ''openai'' (''openai-'' @ r) = r"
  by (simp add: normalize_case_id_def startswith_def)

lemma normalize_strip_xai: "normalize_case_id ''xai'' (''xai-'' @ r) = r"
  by (simp add: normalize_case_id_def startswith_def)

lemma normalize_other:
  "\<not> (pkg = ''openai'' \<and> startswith cid ''openai-'') \<Longrightarrow>
   \<not> (pkg = ''xai'' \<and> startswith cid ''xai-'') \<Longrightarrow> normalize_case_id pkg cid = cid"
  by (auto simp: normalize_case_id_def)

lemma normalize_idem_iff:
  "normalize_case_id pkg (normalize_case_id pkg cid) = normalize_case_id pkg cid \<longleftrightarrow>
     \<not> (pkg = ''openai'' \<and> startswith cid ''openai-openai-'') \<and>
     \<not> (pkg = ''xai'' \<and> startswith cid ''xai-xai-'')"
proof -
  consider (openai) r where "pkg = ''openai''" "cid = ''openai-'' @ r"
    | (xai) r where "pkg = ''xai''" "cid = ''xai-'' @ r"
    | (other) "\<not> (pkg = ''openai'' \<and> startswith cid ''openai-'')"
        "\<not> (pkg = ''xai'' \<and> startswith cid ''xai-'')"
    unfolding startswith_iff by blast
  then show ?thesis
  proof cases
    case openai
    have "startswith cid ''openai-openai-'' \<longleftrightarrow> startswith r ''openai-''"
      using openai(2) by (auto simp: startswith_iff)
    moreover have "normalize_case_id pkg r = r \<longleftrightarrow> \<not> startswith r ''openai-''"
    proof (cases "startswith r ''openai-''")
      case True
      then obtain t where t: "r = ''openai-'' @ t" unfolding startswith_iff by blast
      have "normalize_case_id pkg r = t"
        using normalize_strip_openai [of t] openai(1) t by simp
      moreover have "length t \<noteq> length r" using t by simp
      ultimately show ?thesis using True by auto
    next
      case False
      then show ?thesis using openai(1) by (simp add: normalize_other)
    qed
    moreover have "normalize_case_id pkg cid = r"
      using normalize_strip_openai [of r] openai by simp
    ultimately show ?thesis using openai(1) by simp
  next
    case xai
    have "startswith cid ''xai-xai-'' \<longleftrightarrow> startswith r ''xai-''"
      using xai(2) by (auto simp: startswith_iff)
    moreover have "normalize_case_id pkg r = r \<longleftrightarrow> \<not> startswith r ''xai-''"
    proof (cases "startswith r ''xai-''")
      case True
      then obtain t where t: "r = ''xai-'' @ t" unfolding startswith_iff by blast
      have "normalize_case_id pkg r = t"
        using normalize_strip_xai [of t] xai(1) t by simp
      moreover have "length t \<noteq> length r" using t by simp
      ultimately show ?thesis using True by auto
    next
      case False
      then show ?thesis using xai(1) by (simp add: normalize_other)
    qed
    moreover have "normalize_case_id pkg cid = r"
      using normalize_strip_xai [of r] xai by simp
    ultimately show ?thesis using xai(1) by simp
  next
    case other
    have "\<not> (pkg = ''openai'' \<and> startswith cid ''openai-openai-'')"
      using other(1) by (auto simp: startswith_iff)
    moreover have "\<not> (pkg = ''xai'' \<and> startswith cid ''xai-xai-'')"
      using other(2) by (auto simp: startswith_iff)
    ultimately show ?thesis using other by (simp add: normalize_other)
  qed
qed

text \<open>
  Normalizing strips the package prefix once. A case id that carries the prefix of its
  package twice keeps one copy after the first pass and loses it in the second, so
  normalizing twice is not normalizing once.
\<close>

theorem normalize_case_id_idempotent_counterexample:
  "normalize_case_id ''openai'' (normalize_case_id ''openai'' ''openai-openai-foo.1'')
     \<noteq> normalize_case_id ''openai'' ''openai-openai-foo.1''"
  by (simp add: normalize_case_id_def startswith_def)

text \<open>
  C5, amended. Normalizing is package-scoped: the prefix \<open>openai-\<close> is stripped when the
  package is \<open>openai\<close>, the prefix \<open>xai-\<close> when the package is \<open>xai\<close>, and in every other
  case (another package, or a case id without the prefix of its package) the case id
  passes through unchanged. The prefix is stripped once: normalizing a second time
  changes nothing exactly when the case id does not carry the prefix of its package
  twice (\<open>openai-openai-\<close> in package \<open>openai\<close>, \<open>xai-xai-\<close> in package \<open>xai\<close>).
\<close>

theorem normalize_case_id_scoped:
  "(pkg = ''openai'' \<longrightarrow> normalize_case_id pkg (''openai-'' @ r) = r)
   \<and> (pkg = ''xai'' \<longrightarrow> normalize_case_id pkg (''xai-'' @ r) = r)
   \<and> (pkg = ''openai'' \<and> \<not> startswith cid ''openai-'' \<longrightarrow> normalize_case_id pkg cid = cid)
   \<and> (pkg = ''xai'' \<and> \<not> startswith cid ''xai-'' \<longrightarrow> normalize_case_id pkg cid = cid)
   \<and> (pkg \<noteq> ''openai'' \<and> pkg \<noteq> ''xai'' \<longrightarrow> normalize_case_id pkg cid = cid)
   \<and> (normalize_case_id pkg (normalize_case_id pkg cid) = normalize_case_id pkg cid \<longleftrightarrow>
        \<not> (pkg = ''openai'' \<and> startswith cid ''openai-openai-'') \<and>
        \<not> (pkg = ''xai'' \<and> startswith cid ''xai-xai-''))"
proof -
  have "pkg = ''openai'' \<longrightarrow> normalize_case_id pkg (''openai-'' @ r) = r"
    using normalize_strip_openai [of r] by simp
  moreover have "pkg = ''xai'' \<longrightarrow> normalize_case_id pkg (''xai-'' @ r) = r"
    using normalize_strip_xai [of r] by simp
  moreover have "pkg = ''openai'' \<and> \<not> startswith cid ''openai-'' \<longrightarrow> normalize_case_id pkg cid = cid"
    by (simp add: normalize_other)
  moreover have "pkg = ''xai'' \<and> \<not> startswith cid ''xai-'' \<longrightarrow> normalize_case_id pkg cid = cid"
    by (simp add: normalize_other)
  moreover have "pkg \<noteq> ''openai'' \<and> pkg \<noteq> ''xai'' \<longrightarrow> normalize_case_id pkg cid = cid"
    by (simp add: normalize_other)
  ultimately show ?thesis using normalize_idem_iff [of pkg cid] by blast
qed

theorem normalize_case_id_scoped_witness:
  "normalize_case_id ''openai'' ''openai-foo.1'' = ''foo.1''
   \<and> normalize_case_id ''xai'' ''xai-bar.2'' = ''bar.2''
   \<and> normalize_case_id ''anthropic'' ''openai-foo.1'' = ''openai-foo.1''
   \<and> normalize_case_id ''openai'' ''xai-bar.2'' = ''xai-bar.2''
   \<and> normalize_case_id ''xai'' ''openai-foo.1'' = ''openai-foo.1''
   \<and> normalize_case_id ''openai'' (normalize_case_id ''openai'' ''openai-foo.1'')
       = normalize_case_id ''openai'' ''openai-foo.1''"
  using normalize_case_id_scoped [of "''openai''" "''foo.1''" "''xai-bar.2''"]
    normalize_case_id_scoped [of "''xai''" "''bar.2''" "''openai-foo.1''"]
    normalize_case_id_scoped [of "''anthropic''" "[]" "''openai-foo.1''"]
    normalize_case_id_scoped [of "''openai''" "[]" "''openai-foo.1''"]
  by (simp add: startswith_def)

text \<open>
  C6. For every set of directory names and every normalized case id, \<open>case_dir_exists\<close>
  holds if and only if the case id is a member of the set or some directory name of the
  set is the case id followed by \<open>-\<close> and any rest.
\<close>

theorem case_dir_exists_iff:
  "case_dir_exists dir_names n \<longleftrightarrow>
     n \<in> dir_names \<or> (\<exists>d \<in> dir_names. \<exists>rest. d = n @ ''-'' @ rest)"
  by (auto simp: case_dir_exists_def Let_def startswith_iff)

theorem case_dir_exists_iff_witness:
  "case_dir_exists {''foo.1-json'', ''foo.1-text''} ''foo.1''
   \<and> case_dir_exists {''foo.1''} ''foo.1''
   \<and> \<not> case_dir_exists {''bar.1''} ''foo.1''"
proof -
  have "''foo.1-json'' \<in> {''foo.1-json'', ''foo.1-text''} \<and> ''foo.1-json'' = ''foo.1'' @ ''-'' @ ''json''"
    by simp
  then have 1: "case_dir_exists {''foo.1-json'', ''foo.1-text''} ''foo.1''"
    using case_dir_exists_iff [of "{''foo.1-json'', ''foo.1-text''}" "''foo.1''"] by blast
  have 2: "case_dir_exists {''foo.1''} ''foo.1''"
    using case_dir_exists_iff [of "{''foo.1''}" "''foo.1''"] by simp
  have 3: "\<not> case_dir_exists {''bar.1''} ''foo.1''"
    using case_dir_exists_iff [of "{''bar.1''}" "''foo.1''"] by simp
  show ?thesis using 1 2 3 by simp
qed

section \<open>The example trees, evaluated\<close>

lemma concat_read_chunks: "concat (read_chunks bs) = bs"
proof (induction bs rule: read_chunks.induct)
  case (1 bs)
  show ?case
  proof (cases "bs = []")
    case True
    then show ?thesis by (subst read_chunks.simps) simp
  next
    case False
    then show ?thesis using "1.IH" by (subst read_chunks.simps) simp
  qed
qed

lemma foldl_append_concat: "foldl (\<lambda>h chunk. h @ chunk) h0 chunks = h0 @ concat chunks"
  by (induction chunks arbitrary: h0) simp_all

lemma digest_content_hash: "digest content_hash bs = bs"
  by (simp add: digest_def content_hash_def foldl_append_concat concat_read_chunks)

lemma name_up_anthropic: "name (up_anthropic nm) = nm"
  by (simp add: name_def path_name_def up_anthropic_def)

lemma ex_upstream:
  "iter_upstream_fixtures fs_example [''ai''] =
     [up_anthropic ''amb.json'', up_anthropic ''baz.1.chunks.txt'', up_anthropic ''drift.json'',
      up_anthropic ''dup.json'', up_anthropic ''gone.json'', up_langchain, up_openai, up_xai]"
  by code_simp

lemma ex_not_ignored:
  "filter (\<lambda>f. package f \<notin> {''langchain''}) (iter_upstream_fixtures fs_example [''ai'']) =
     [up_anthropic ''amb.json'', up_anthropic ''baz.1.chunks.txt'', up_anthropic ''drift.json'',
      up_anthropic ''dup.json'', up_anthropic ''gone.json'', up_openai, up_xai]"
  unfolding ex_upstream by (simp add: up_anthropic_def up_langchain_def up_openai_def up_xai_def)

lemma ex_candidates:
  "dict_get (fst (build_siumai_fixture_index fs_example [''si''])) ''drift.json''
     = [si_path [''drift.json'']]"
  "dict_get (fst (build_siumai_fixture_index fs_example [''si''])) ''baz.1.chunks.txt''
     = [si_path [''baz.1.chunks.txt'']]"
  "dict_get (fst (build_siumai_fixture_index fs_example [''si''])) ''dup.json''
     = [si_path [''d1'', ''dup.json''], si_path [''d2'', ''dup.json'']]"
  "dict_get (fst (build_siumai_fixture_index fs_example [''si''])) ''amb.json''
     = [si_path [''d1'', ''amb.json''], si_path [''d2'', ''amb.json'']]"
  "dict_get (fst (build_siumai_fixture_index fs_example [''si''])) ''gone.json'' = []"
  "dict_get (fst (build_siumai_fixture_index fs_example [''si''])) ''openai-foo.1.json'' = []"
  "dict_get (fst (build_siumai_fixture_index fs_example [''si''])) ''xai-bar.1.json'' = []"
  by code_simp+

lemma ex_dir_names:
  "snd (build_siumai_fixture_index fs_example [''si''])
     = {''foo.1'', ''bar.1-json'', ''d1'', ''d2''}"
  by code_simp

lemma ex_open:
  "open_rb fs_example (path (up_anthropic ''drift.json'')) = Inr ''d''"
  "open_rb fs_example (si_path [''drift.json'']) = Inr ''D''"
  "open_rb fs_example (path (up_anthropic ''baz.1.chunks.txt'')) = Inr ''c''"
  "open_rb fs_example (si_path [''baz.1.chunks.txt'']) = Inr ''c''"
  "open_rb fs_example (path (up_anthropic ''dup.json'')) = Inr ''e''"
  "open_rb fs_example (si_path [''d1'', ''dup.json'']) = Inr ''e''"
  "open_rb fs_example (si_path [''d2'', ''dup.json'']) = Inr ''E''"
  "open_rb fs_example (path (up_anthropic ''amb.json'')) = Inr ''f''"
  "open_rb fs_example (si_path [''d1'', ''amb.json'']) = Inr ''1''"
  "open_rb fs_example (si_path [''d2'', ''amb.json'']) = Inr ''2''"
  by code_simp+

lemma file_digest_content_hash: "file_digest content_hash fs p = open_rb fs p"
  by (cases "open_rb fs p") (simp_all add: file_digest_def digest_content_hash)

lemma ex_names:
  "name up_openai = ''openai-foo.1.json''"
  "name up_xai = ''xai-bar.1.json''"
  "name up_langchain = ''l.json''"
  by (simp_all add: name_def path_name_def up_openai_def up_xai_def up_langchain_def)

lemma ex_case_ids:
  "normalize_case_id (package up_openai) (case_id up_openai) = ''foo.1''"
  "normalize_case_id (package up_xai) (case_id up_xai) = ''bar.1''"
  "normalize_case_id (package (up_anthropic ''gone.json'')) (case_id (up_anthropic ''gone.json''))
     = ''gone''"
  by code_simp+

lemma ex_case_dirs:
  "case_dir_exists {''foo.1'', ''bar.1-json'', ''d1'', ''d2''} ''foo.1''"
  "case_dir_exists {''foo.1'', ''bar.1-json'', ''d1'', ''d2''} ''bar.1''"
  "\<not> case_dir_exists {''foo.1'', ''bar.1-json'', ''d1'', ''d2''} ''gone''"
  by (simp_all add: case_dir_exists_def startswith_def)

lemma ex_multi_upstream:
  "iter_upstream_fixtures fs_multi [''ai''] = [up_anthropic ''dup.json'']"
  by code_simp

lemma ex_multi_candidates:
  "dict_get (fst (build_siumai_fixture_index fs_multi [''si''])) ''dup.json''
     = [si_path [''d1'', ''dup.json''], si_path [''d2'', ''dup.json'']]"
  by code_simp

lemma ex_multi_open:
  "open_rb fs_multi (path (up_anthropic ''dup.json'')) = Inr ''e''"
  "open_rb fs_multi (si_path [''d1'', ''dup.json'']) = Inr ''e''"
  "open_rb fs_multi (si_path [''d2'', ''dup.json'']) = Inr ''E''"
  by code_simp+

section \<open>The file system and the two enumerations\<close>

lemma is_file_not_dir: "is_file fs p \<Longrightarrow> \<not> is_dir fs p"
  by (auto simp: is_file_def is_dir_def split: option.splits node.splits)

lemma dict_get_upd:
  "dict_get (d(k \<mapsto> v)) k' = (if k' = k then v else dict_get d k')"
  by (simp add: dict_get_def)

lemma foldl_index_entry:
  "dict_get (fst (foldl (index_entry fs) acc ps)) nm =
     dict_get (fst acc) nm @ filter (\<lambda>p. is_file fs p \<and> path_name p = nm) ps
   \<and> snd (foldl (index_entry fs) acc ps) = snd acc \<union> path_name ` {p \<in> set ps. is_dir fs p}"
proof (induction ps arbitrary: acc)
  case Nil
  then show ?case by simp
next
  case (Cons p ps)
  obtain file_index dir_names where acc: "acc = (file_index, dir_names)" by (cases acc)
  note IH = Cons.IH [of "index_entry fs acc p"]
  show ?case
    unfolding foldl_Cons IH [THEN conjunct1] IH [THEN conjunct2]
    by (auto simp: acc index_entry_def dict_get_upd is_file_not_dir)
qed

lemma build_index_candidates:
  "dict_get (fst (build_siumai_fixture_index fs siumai_root)) nm =
     filter (\<lambda>p. is_file fs p \<and> path_name p = nm)
       (rglob fs (siumai_root @ [''siumai'', ''tests'', ''fixtures'']) ''*'')"
  using foldl_index_entry [of fs "(Map.empty, {})"]
  by (simp add: build_siumai_fixture_index_def dict_get_def)

lemma build_index_dir_names:
  "snd (build_siumai_fixture_index fs siumai_root) =
     path_name ` {p \<in> set (rglob fs (siumai_root @ [''siumai'', ''tests'', ''fixtures'']) ''*'').
                   is_dir fs p}"
  using foldl_index_entry [of fs "(Map.empty, {})"]
  by (simp add: build_siumai_fixture_index_def)

lemma build_index_is_file:
  "c \<in> set (dict_get (fst (build_siumai_fixture_index fs siumai_root)) nm) \<Longrightarrow> is_file fs c"
  by (simp add: build_index_candidates)

lemma build_index_missing:
  assumes "resolve fs (siumai_root @ [''siumai'', ''tests'', ''fixtures'']) = None"
  shows "build_siumai_fixture_index fs siumai_root = (Map.empty, {})"
  using assms by (simp add: build_siumai_fixture_index_def rglob_def)

lemma resolve_append:
  "resolve fs (p @ r) = (case resolve fs p of None \<Rightarrow> None | Some nd \<Rightarrow> resolve nd r)"
  by (induction fs p rule: resolve.induct) (auto split: option.splits)

lemma resolve_None_append: "resolve fs p = None \<Longrightarrow> resolve fs (p @ r) = None"
  by (simp add: resolve_append)

lemma walk_rel: "walk p nd = map ((@) p) (walk [] nd)"
proof (induction nd arbitrary: p)
  case (File bs)
  then show ?case by simp
next
  case (Dir es)
  have "walk (p @ [fst e]) (snd e) = map ((@) p) (walk [fst e] (snd e))" if "e \<in> set es" for e
  proof -
    have "snd e \<in> Basic_BNFs.snds e" by (cases e) simp
    then have a: "\<And>q. walk q (snd e) = map ((@) q) (walk [] (snd e))"
      using Dir.IH that by blast
    show ?thesis by (subst a, subst (2) a) simp
  qed
  then show ?case by (simp add: map_concat comp_def cong: map_cong)
qed

lemma walk_Dir:
  "walk [] (Dir es) =
     map (\<lambda>e. [fst e]) es @ concat (map (\<lambda>e. map ((#) (fst e)) (walk [] (snd e))) es)"
proof -
  have "walk [fst e] (snd e) = map ((#) (fst e)) (walk [] (snd e))" for e
    by (subst walk_rel) simp
  then show ?thesis by simp
qed

lemma walk_nonempty: "r \<in> set (walk [] nd) \<Longrightarrow> r \<noteq> []"
proof (cases nd)
  case (File bs)
  then show "r \<in> set (walk [] nd) \<Longrightarrow> r \<noteq> []" by simp
next
  case (Dir es)
  then show "r \<in> set (walk [] nd) \<Longrightarrow> r \<noteq> []" unfolding Dir walk_Dir by auto
qed

lemma walk_below: "q \<in> set (walk p nd) \<Longrightarrow> \<exists>r. r \<noteq> [] \<and> q = p @ r"
proof -
  assume "q \<in> set (walk p nd)"
  then obtain r where "r \<in> set (walk [] nd)" "q = p @ r"
    by (subst (asm) walk_rel) auto
  then show ?thesis using walk_nonempty by blast
qed

lemma wf_child: "wf_node (Dir es) \<Longrightarrow> e \<in> set es \<Longrightarrow> wf_node (snd e)"
  by (simp add: list_all_iff)

lemma wf_resolve: "wf_node nd \<Longrightarrow> resolve nd r = Some n \<Longrightarrow> wf_node n"
proof (induction nd r rule: resolve.induct)
  case (1 nd)
  then show ?case by simp
next
  case (2 bs n ns)
  then show ?case by simp
next
  case (3 es m ns)
  then obtain c where c: "map_of es m = Some c" "resolve c ns = Some n"
    by (auto split: option.splits)
  then have "(m, c) \<in> set es" by (simp add: map_of_SomeD)
  then have "wf_node c" using wf_child [OF "3.prems"(1)] by fastforce
  then show ?case using "3.IH" c by simp
qed

lemma resolve_in_walk: "r \<noteq> [] \<Longrightarrow> resolve nd r = Some n \<Longrightarrow> r \<in> set (walk [] nd)"
proof (induction nd r arbitrary: n rule: resolve.induct)
  case (1 nd)
  then show ?case by simp
next
  case (2 bs m ns)
  then show ?case by simp
next
  case (3 es m ns)
  then obtain c where c: "map_of es m = Some c" "resolve c ns = Some n"
    by (auto split: option.splits)
  then have e: "(m, c) \<in> set es" by (simp add: map_of_SomeD)
  show ?case
  proof (cases "ns = []")
    case True
    then show ?thesis using e unfolding walk_Dir by force
  next
    case False
    then have "ns \<in> set (walk [] c)" using "3.IH" c by simp
    then show ?thesis using e unfolding walk_Dir by force
  qed
qed

lemma distinct_walk: "wf_node nd \<Longrightarrow> distinct (walk [] nd)"
proof (induction nd)
  case (File bs)
  then show ?case by simp
next
  case (Dir es)
  have d: "distinct (map fst es)" using Dir.prems by simp
  let ?g = "\<lambda>e. map ((#) (fst e)) (walk [] (snd e))"
  have each: "distinct (?g e)" if "e \<in> set es" for e
  proof -
    have "snd e \<in> Basic_BNFs.snds e" by (cases e) simp
    moreover have "wf_node (snd e)" using wf_child [OF Dir.prems that] .
    ultimately have "distinct (walk [] (snd e))" using Dir.IH that by blast
    then show ?thesis by (simp add: distinct_map inj_on_def)
  qed
  have top: "distinct (map (\<lambda>e. [fst e]) es)"
    using d by (simp add: distinct_map inj_on_def)
  have deep: "distinct (concat (map ?g es))"
    using d each
  proof (induction es)
    case Nil
    then show ?case by simp
  next
    case (Cons e es)
    have "set (?g e) \<inter> set (concat (map ?g es)) = {}"
    proof (rule ccontr)
      assume "set (?g e) \<inter> set (concat (map ?g es)) \<noteq> {}"
      then obtain q e' where "q \<in> set (?g e)" "e' \<in> set es" "q \<in> set (?g e')" by auto
      then have "fst e = fst e'" by auto
      then show False using Cons.prems(1) \<open>e' \<in> set es\<close> by force
    qed
    then show ?case using Cons by simp
  qed
  have apart: "set (map (\<lambda>e. [fst e]) es) \<inter> set (concat (map ?g es)) = {}"
    using walk_nonempty by fastforce
  show ?case unfolding walk_Dir using top deep apart by simp
qed

lemma rglob_below:
  "q \<in> set (rglob fs p pattern) \<Longrightarrow>
     \<exists>r. r \<noteq> [] \<and> q = p @ r \<and> (pattern = ''*'' \<or> path_name q = pattern)"
  by (auto simp: rglob_def split: option.splits dest: walk_below)

lemma rglob_missing: "resolve fs p = None \<Longrightarrow> rglob fs p pattern = []"
  by (simp add: rglob_def)

lemma relative_to_append: "relative_to (base @ r) base = Some r"
  by (induction base) auto

lemma package_of_below: "r \<noteq> [] \<Longrightarrow> package_of (base @ r) base = hd r"
  by (cases r) (auto simp: package_of_def relative_to_append)

lemma iter_upstream_fixtures_mem:
  assumes "f \<in> set (iter_upstream_fixtures fs ai_root)"
  shows "\<exists>fixtures_dir \<in> set (rglob fs (ai_root @ [''packages'']) ''__fixtures__'').
           is_dir fs fixtures_dir \<and> path f \<in> set (rglob fs fixtures_dir ''*'') \<and>
           is_file fs (path f) \<and>
           package f = package_of fixtures_dir (ai_root @ [''packages''])"
  using assms by (auto simp: iter_upstream_fixtures_def Let_def split: if_splits)

lemma iter_upstream_fixtures_is_file:
  "f \<in> set (iter_upstream_fixtures fs ai_root) \<Longrightarrow> is_file fs (path f)"
  using iter_upstream_fixtures_mem by blast

lemma iter_upstream_fixtures_missing:
  "resolve fs (ai_root @ [''packages'']) = None \<Longrightarrow> iter_upstream_fixtures fs ai_root = []"
  by (simp add: iter_upstream_fixtures_def rglob_missing)

lemma relative_to_Some: "relative_to p base = Some r \<Longrightarrow> p = base @ r"
  by (induction p base rule: relative_to.induct) (auto split: if_splits)

lemma rglob_star: "resolve fs d = Some n \<Longrightarrow> rglob fs d ''*'' = map ((@) d) (walk [] n)"
  by (simp add: rglob_def) (subst walk_rel, simp)

lemma rglob_named:
  "resolve fs p = Some n \<Longrightarrow> nm \<noteq> ''*'' \<Longrightarrow>
     rglob fs p nm = map ((@) p) (filter (\<lambda>r. path_name r = nm) (walk [] n))"
proof -
  assume a: "resolve fs p = Some n" "nm \<noteq> ''*''"
  have "path_name (p @ r) = path_name r" if "r \<in> set (walk [] n)" for r
    using walk_nonempty [OF that] by (simp add: path_name_def)
  then have "filter (\<lambda>q. path_name q = nm) (map ((@) p) (walk [] n))
               = map ((@) p) (filter (\<lambda>r. path_name r = nm) (walk [] n))"
    by (simp add: filter_map comp_def cong: filter_cong)
  then show ?thesis using a by (simp add: rglob_def) (subst walk_rel, simp)
qed

lemma concat_map_if:
  "concat (map (\<lambda>d. if \<not> P d then [] else g d) ds) = concat (map g (filter P ds))"
  by (induction ds) simp_all

text \<open>Every regular file below a directory named \<open>__fixtures__\<close> that lies below the
  packages root is enumerated.\<close>

lemma iter_upstream_fixtures_complete:
  assumes d: "is_dir fs (pr @ rel)" "path_name (pr @ rel) = ''__fixtures__''" "rel \<noteq> []"
    and f: "is_file fs ((pr @ rel) @ rest)" "rest \<noteq> []"
    and pr: "pr = ai_root @ [''packages'']"
  shows "\<lparr>package = hd rel, path = (pr @ rel) @ rest\<rparr> \<in> set (iter_upstream_fixtures fs ai_root)"
proof -
  obtain es where es: "resolve fs (pr @ rel) = Some (Dir es)"
    using d(1) by (auto simp: is_dir_def split: option.splits node.splits)
  then obtain root where root: "resolve fs pr = Some root" "resolve root rel = Some (Dir es)"
    using resolve_append [of fs pr rel] by (auto split: option.splits)
  have "rel \<in> set (walk [] root)" using resolve_in_walk [OF d(3) root(2)] .
  then have "rel \<in> set (filter (\<lambda>r. path_name r = ''__fixtures__'') (walk [] root))"
    using d(2,3) by (simp add: path_name_def)
  then have dir: "pr @ rel \<in> set (rglob fs pr ''__fixtures__'')"
    by (subst rglob_named [OF root(1)]) simp_all
  obtain b where "resolve fs ((pr @ rel) @ rest) = Some (File b)"
    using f(1) by (auto simp: is_file_def split: option.splits node.splits)
  then have "resolve (Dir es) rest = Some (File b)"
    using resolve_append [of fs "pr @ rel" rest] es by simp
  then have "rest \<in> set (walk [] (Dir es))" using resolve_in_walk [OF f(2)] by blast
  then have below: "(pr @ rel) @ rest \<in> set (rglob fs (pr @ rel) ''*'')"
    by (subst rglob_star [OF es]) (simp del: walk.simps)
  have pkg: "package_of (pr @ rel) pr = hd rel" using d(3) by (rule package_of_below)
  have "\<lparr>package = package_of (pr @ rel) pr, path = (pr @ rel) @ rest\<rparr>
          \<in> set (iter_upstream_fixtures fs ai_root)"
    unfolding iter_upstream_fixtures_def Let_def pr [symmetric]
    using dir d(1) below f(1) by (auto simp del: append_assoc)
  then show ?thesis unfolding pkg .
qed

text \<open>
  C7. The upstream enumerator returns the fixtures it has collected, sorted by the path
  rendered as a string: the output is sorted, and as a multiset it is the collected list
  (for each directory named \<open>__fixtures__\<close> below the packages root, the regular files
  below it). So a fixture is in the output exactly if it is a regular file below a
  directory named \<open>__fixtures__\<close> below the packages root and its package is the first
  part of that directory's path relative to the packages root; that is also what the
  code's \<open>try\<close> computes, whose fallback \<open>unknown\<close> for a relative path that cannot be
  computed is never taken.
\<close>

theorem iter_upstream_fixtures_sorted_package:
  assumes "out = iter_upstream_fixtures fs ai_root" "packages_root = ai_root @ [''packages'']"
  shows "sorted (map (\<lambda>f. path_str (path f)) out)
    \<and> mset out =
        mset (concat (map (\<lambda>fixtures_dir.
                 map (\<lambda>file. \<lparr>package = package_of fixtures_dir packages_root, path = file\<rparr>)
                   (filter (is_file fs) (rglob fs fixtures_dir ''*'')))
               (filter (is_dir fs) (rglob fs packages_root ''__fixtures__''))))
    \<and> (\<forall>f. f \<in> set out \<longleftrightarrow>
          (\<exists>fixtures_dir rel rest.
              path_name fixtures_dir = ''__fixtures__'' \<and> is_dir fs fixtures_dir
            \<and> path f = fixtures_dir @ rest \<and> rest \<noteq> [] \<and> is_file fs (path f)
            \<and> relative_to fixtures_dir packages_root = Some rel \<and> rel \<noteq> []
            \<and> package f = hd rel
            \<and> package f = (case relative_to fixtures_dir packages_root of
                              Some (part # parts) \<Rightarrow> part | _ \<Rightarrow> ''unknown'')))"
proof (intro conjI allI iffI)
  show "sorted (map (\<lambda>f. path_str (path f)) out)"
    unfolding assms(1) iter_upstream_fixtures_def Let_def by (rule sorted_sort_key)
next
  show "mset out =
        mset (concat (map (\<lambda>fixtures_dir.
                 map (\<lambda>file. \<lparr>package = package_of fixtures_dir packages_root, path = file\<rparr>)
                   (filter (is_file fs) (rglob fs fixtures_dir ''*'')))
               (filter (is_dir fs) (rglob fs packages_root ''__fixtures__''))))"
    unfolding assms iter_upstream_fixtures_def Let_def mset_sort concat_map_if ..
next
  fix f :: UpstreamFixture
  assume "f \<in> set out"
  then obtain d where d: "d \<in> set (rglob fs packages_root ''__fixtures__'')" "is_dir fs d"
    "path f \<in> set (rglob fs d ''*'')" "is_file fs (path f)" "package f = package_of d packages_root"
    using iter_upstream_fixtures_mem [of f fs ai_root] assms by blast
  obtain rel where rel: "rel \<noteq> []" "d = packages_root @ rel" "path_name d = ''__fixtures__''"
    using rglob_below [OF d(1)] by auto
  obtain rest where rest: "rest \<noteq> []" "path f = d @ rest"
    using rglob_below [OF d(3)] by auto
  have r: "relative_to d packages_root = Some rel"
    using rel(2) by (simp add: relative_to_append)
  have p: "package f = hd rel"
    using d(5) rel by (simp add: package_of_below)
  have "package f = (case relative_to d packages_root of
                          Some (part # parts) \<Rightarrow> part | _ \<Rightarrow> ''unknown'')"
    using d(5) by (simp add: package_of_def)
  then show "\<exists>fixtures_dir rel rest.
              path_name fixtures_dir = ''__fixtures__'' \<and> is_dir fs fixtures_dir
            \<and> path f = fixtures_dir @ rest \<and> rest \<noteq> [] \<and> is_file fs (path f)
            \<and> relative_to fixtures_dir packages_root = Some rel \<and> rel \<noteq> []
            \<and> package f = hd rel
            \<and> package f = (case relative_to fixtures_dir packages_root of
                              Some (part # parts) \<Rightarrow> part | _ \<Rightarrow> ''unknown'')"
    using rel rest r p d by blast
next
  fix f :: UpstreamFixture
  assume "\<exists>fixtures_dir rel rest.
              path_name fixtures_dir = ''__fixtures__'' \<and> is_dir fs fixtures_dir
            \<and> path f = fixtures_dir @ rest \<and> rest \<noteq> [] \<and> is_file fs (path f)
            \<and> relative_to fixtures_dir packages_root = Some rel \<and> rel \<noteq> []
            \<and> package f = hd rel
            \<and> package f = (case relative_to fixtures_dir packages_root of
                              Some (part # parts) \<Rightarrow> part | _ \<Rightarrow> ''unknown'')"
  then obtain d rel rest where a: "path_name d = ''__fixtures__''" "is_dir fs d"
    "path f = d @ rest" "rest \<noteq> []" "is_file fs (path f)"
    "relative_to d packages_root = Some rel" "rel \<noteq> []" "package f = hd rel"
    by blast
  have d: "d = packages_root @ rel" using a(6) by (rule relative_to_Some)
  have "\<lparr>package = hd rel, path = (packages_root @ rel) @ rest\<rparr>
          \<in> set (iter_upstream_fixtures fs ai_root)"
    using a d by (intro iter_upstream_fixtures_complete [OF _ _ _ _ _ assms(2)]) simp_all
  moreover have "f = \<lparr>package = hd rel, path = (packages_root @ rel) @ rest\<rparr>"
    using a(3,8) d by simp
  ultimately show "f \<in> set out" using assms(1) by simp
qed

theorem iter_upstream_fixtures_sorted_package_witness:
  "is_dir fs_example [''ai'', ''packages'', ''openai'', ''__fixtures__'']
   \<and> is_file fs_example (path up_openai)
   \<and> relative_to [''ai'', ''packages'', ''openai'', ''__fixtures__''] ([''ai''] @ [''packages''])
       = Some [''openai'', ''__fixtures__'']
   \<and> up_openai \<in> set (iter_upstream_fixtures fs_example [''ai''])
   \<and> sorted (map (\<lambda>f. path_str (path f)) (iter_upstream_fixtures fs_example [''ai'']))
   \<and> size (mset (iter_upstream_fixtures fs_example [''ai''])) = 8"
proof -
  let ?d = "[''ai'', ''packages'', ''openai'', ''__fixtures__'']"
  have dir: "is_dir fs_example ?d" by code_simp
  have isf: "is_file fs_example (path up_openai)" by code_simp
  have rel: "relative_to ?d ([''ai''] @ [''packages'']) = Some [''openai'', ''__fixtures__'']"
    by simp
  note claim = iter_upstream_fixtures_sorted_package [OF refl refl, of fs_example "[''ai'']"]
  note srt = claim [THEN conjunct1]
  note iff = claim [THEN conjunct2, THEN conjunct2, rule_format, of up_openai]
  have "\<exists>fixtures_dir rel rest.
              path_name fixtures_dir = ''__fixtures__'' \<and> is_dir fs_example fixtures_dir
            \<and> path up_openai = fixtures_dir @ rest \<and> rest \<noteq> [] \<and> is_file fs_example (path up_openai)
            \<and> relative_to fixtures_dir ([''ai''] @ [''packages'']) = Some rel \<and> rel \<noteq> []
            \<and> package up_openai = hd rel
            \<and> package up_openai = (case relative_to fixtures_dir ([''ai''] @ [''packages'']) of
                              Some (part # parts) \<Rightarrow> part | _ \<Rightarrow> ''unknown'')"
  proof (intro exI conjI)
    show "path_name ?d = ''__fixtures__''" by (simp add: path_name_def)
    show "is_dir fs_example ?d" by (rule dir)
    show "path up_openai = ?d @ [''openai-foo.1.json'']" by (simp add: up_openai_def)
    show "[''openai-foo.1.json''] \<noteq> []" by simp
    show "is_file fs_example (path up_openai)" by (rule isf)
    show "relative_to ?d ([''ai''] @ [''packages'']) = Some [''openai'', ''__fixtures__'']"
      by (rule rel)
    show "[''openai'', ''__fixtures__''] \<noteq> []" by simp
    show "package up_openai = hd [''openai'', ''__fixtures__'']" by (simp add: up_openai_def)
    show "package up_openai = (case relative_to ?d ([''ai''] @ [''packages'']) of
                              Some (part # parts) \<Rightarrow> part | _ \<Rightarrow> ''unknown'')"
      by (simp add: up_openai_def)
  qed
  then have mem: "up_openai \<in> set (iter_upstream_fixtures fs_example [''ai''])"
    using iff by blast
  have n: "size (mset (iter_upstream_fixtures fs_example [''ai''])) = 8"
    unfolding ex_upstream by simp
  show ?thesis using dir isf rel mem srt n by blast
qed

subsection \<open>No content is read\<close>

lemma map_of_without_content:
  "map_of (map (\<lambda>e. (fst e, without_content (snd e))) es) n =
     map_option without_content (map_of es n)"
  by (induction es) auto

lemma resolve_without_content:
  "resolve (without_content fs) p = map_option without_content (resolve fs p)"
proof (induction fs p rule: resolve.induct)
  case (1 nd)
  then show ?case by simp
next
  case (2 bs n ns)
  then show ?case by simp
next
  case (3 es n ns)
  then show ?case
    by (cases "map_of es n") (simp_all add: map_of_without_content)
qed

lemma is_dir_without_content: "is_dir (without_content fs) p = is_dir fs p"
  by (cases "resolve fs p"; cases "the (resolve fs p)")
     (simp_all add: is_dir_def resolve_without_content)

lemma is_file_without_content: "is_file (without_content fs) p = is_file fs p"
  by (cases "resolve fs p"; cases "the (resolve fs p)")
     (simp_all add: is_file_def resolve_without_content)

lemma walk_without_content: "walk p (without_content nd) = walk p nd"
  by (induction p nd rule: walk.induct) (simp_all add: comp_def cong: map_cong)

lemma rglob_without_content: "rglob (without_content fs) p pattern = rglob fs p pattern"
  by (cases "resolve fs p") (simp_all add: rglob_def resolve_without_content walk_without_content)

lemma index_entry_without_content: "index_entry (without_content fs) = index_entry fs"
  by (intro ext)
     (simp add: index_entry_def is_dir_without_content is_file_without_content split: prod.splits)

lemma build_index_without_content:
  "build_siumai_fixture_index (without_content fs) siumai_root =
   build_siumai_fixture_index fs siumai_root"
  by (simp add: build_siumai_fixture_index_def rglob_without_content index_entry_without_content)

section \<open>The classification loop\<close>

lemma sha256_Inr: "file_digest H fs p = Inr h \<Longrightarrow> sha256 H fs p log = Inr (h, log @ [p])"
  by (simp add: sha256_def)

lemma file_digest_is_file:
  "is_file fs p \<Longrightarrow> \<exists>bs. open_rb fs p = Inr bs \<and> file_digest H fs p = Inr (digest H bs)"
  by (auto simp: is_file_def open_rb_def file_digest_def split: option.splits node.splits)

lemma matching_of_files:
  assumes "\<forall>c \<in> set cs. is_file fs c"
  shows "matching_of H fs up_hash cs log =
           Inr (filter (\<lambda>c. file_digest H fs c = Inr up_hash) cs, log @ cs)"
  using assms
proof (induction cs arbitrary: log)
  case Nil
  then show ?case by simp
next
  case (Cons c cs)
  then obtain bs where "file_digest H fs c = Inr (digest H bs)"
    using file_digest_is_file [of fs c H] by auto
  then show ?case using Cons by (simp add: sha256_Inr)
qed

text \<open>The three branches of the loop body, for files that can be read.\<close>

lemma classify_one:
  assumes "dict_get file_index (name f) = [si]" "is_file fs (path f)" "is_file fs si"
  shows "classify H fs file_index dir_names a f =
    Inr (a\<lparr>covered_by_file := covered_by_file a @ [f],
           drift := drift a @ (if file_digest H fs (path f) \<noteq> file_digest H fs si then [(f, si)] else []),
           opened := opened a @ [path f, si]\<rparr>)"
proof -
  obtain ub where ub: "file_digest H fs (path f) = Inr (digest H ub)"
    using file_digest_is_file [OF assms(2)] by blast
  obtain sb where sb: "file_digest H fs si = Inr (digest H sb)"
    using file_digest_is_file [OF assms(3)] by blast
  show ?thesis
    by (simp add: classify_def Let_def assms(1) sha256_Inr [OF ub] sha256_Inr [OF sb] ub sb)
qed

lemma classify_multi:
  assumes "length (dict_get file_index (name f)) > 1" "is_file fs (path f)"
    "\<forall>c \<in> set (dict_get file_index (name f)). is_file fs c"
    "matching = filter (\<lambda>c. file_digest H fs c = file_digest H fs (path f))
                  (dict_get file_index (name f))"
  shows "classify H fs file_index dir_names a f =
    Inr (if matching \<noteq> []
         then a\<lparr>covered_by_file_multi :=
                  covered_by_file_multi a @ [(f, matching, dict_get file_index (name f))],
                opened := opened a @ path f # dict_get file_index (name f)\<rparr>
         else a\<lparr>ambiguous := ambiguous a @ [(f, dict_get file_index (name f))],
                opened := opened a @ path f # dict_get file_index (name f)\<rparr>)"
proof -
  obtain ub where ub: "file_digest H fs (path f) = Inr (digest H ub)"
    using file_digest_is_file [OF assms(2)] by blast
  have "length (dict_get file_index (name f)) \<noteq> 1" using assms(1) by simp
  then show ?thesis
    using assms(1)
    by (simp add: classify_def Let_def sha256_Inr [OF ub] matching_of_files [OF assms(3)] assms(4) ub)
qed

lemma classify_none:
  assumes "dict_get file_index (name f) = []"
  shows "classify H fs file_index dir_names a f =
    Inr (if case_dir_exists dir_names (normalize_case_id (package f) (case_id f))
         then a\<lparr>covered_by_case_dir := covered_by_case_dir a @ [f]\<rparr>
         else a\<lparr>missing := missing a @ [f]\<rparr>)"
  by (simp add: classify_def Let_def assms)

text \<open>The whole loop: each list grows by the fixtures of its branch, in the order of
  \<open>upstream\<close>.\<close>

lemma classify_all_files:
  assumes "\<forall>f \<in> set upstream. is_file fs (path f)"
    "\<forall>f \<in> set upstream. \<forall>c \<in> set (dict_get file_index (name f)). is_file fs c"
  shows "classify_all H fs file_index dir_names a upstream =
    Inr \<lparr>covered_by_file =
           covered_by_file a @ filter (\<lambda>f. length (dict_get file_index (name f)) = 1) upstream,
         covered_by_file_multi =
           covered_by_file_multi a @
           map (\<lambda>f. (f, filter (\<lambda>c. file_digest H fs c = file_digest H fs (path f))
                         (dict_get file_index (name f)),
                     dict_get file_index (name f)))
             (filter (\<lambda>f. length (dict_get file_index (name f)) > 1 \<and>
                          (\<exists>c \<in> set (dict_get file_index (name f)).
                             file_digest H fs c = file_digest H fs (path f))) upstream),
         covered_by_case_dir =
           covered_by_case_dir a @
           filter (\<lambda>f. dict_get file_index (name f) = [] \<and>
                       case_dir_exists dir_names (normalize_case_id (package f) (case_id f)))
             upstream,
         missing =
           missing a @
           filter (\<lambda>f. dict_get file_index (name f) = [] \<and>
                       \<not> case_dir_exists dir_names (normalize_case_id (package f) (case_id f)))
             upstream,
         ambiguous =
           ambiguous a @
           map (\<lambda>f. (f, dict_get file_index (name f)))
             (filter (\<lambda>f. length (dict_get file_index (name f)) > 1 \<and>
                          \<not> (\<exists>c \<in> set (dict_get file_index (name f)).
                               file_digest H fs c = file_digest H fs (path f))) upstream),
         drift =
           drift a @
           map (\<lambda>f. (f, hd (dict_get file_index (name f))))
             (filter (\<lambda>f. length (dict_get file_index (name f)) = 1 \<and>
                          file_digest H fs (path f)
                            \<noteq> file_digest H fs (hd (dict_get file_index (name f)))) upstream),
         opened =
           opened a @
           concat (map (\<lambda>f. if dict_get file_index (name f) = [] then []
                             else path f # dict_get file_index (name f)) upstream)\<rparr>"
  using assms
proof (induction upstream arbitrary: a)
  case Nil
  then show ?case by simp
next
  case (Cons f upstream)
  let ?cs = "dict_get file_index (name f)"
  have rest: "\<forall>f \<in> set upstream. is_file fs (path f)"
    "\<forall>f \<in> set upstream. \<forall>c \<in> set (dict_get file_index (name f)). is_file fs c"
    using Cons.prems by simp_all
  note IH = Cons.IH [OF rest]
  have files: "is_file fs (path f)" "\<forall>c \<in> set ?cs. is_file fs c"
    using Cons.prems by simp_all
  consider (none) "?cs = []" | (one) si where "?cs = [si]" | (multi) "length ?cs > 1"
    by (cases ?cs rule: list.exhaust; cases "tl ?cs"; force)
  then show ?case
  proof cases
    case none
    show ?thesis
      by (simp add: classify_none [OF none] IH none)
  next
    case (one si)
    have "is_file fs si" using files(2) one by simp
    then show ?thesis
      using classify_one [OF one files(1), of H dir_names a]
      by (simp add: IH one)
  next
    case multi
    have ne: "?cs \<noteq> []" "length ?cs \<noteq> 1" using multi by auto
    show ?thesis
      using classify_multi [OF multi files refl, of H dir_names a] multi ne
      by (simp add: IH filter_empty_conv)
  qed
qed

section \<open>\<open>main\<close>\<close>

text \<open>The loop never fails to read a file: the upstream enumerator yields regular files
  only, and the index lists regular files only. So \<open>main\<close> returns, and each of its
  lists is the part of \<open>upstream\<close> that takes the list's branch.\<close>

lemma main_buckets:
  assumes "upstream = filter (\<lambda>f. package f \<notin> ignore) (iter_upstream_fixtures fs ai_root)"
    and "file_index = fst (build_siumai_fixture_index fs siumai_root)"
    and "dir_names = snd (build_siumai_fixture_index fs siumai_root)"
  shows "main H fs ai_root siumai_root ignore =
    Inr \<lparr>covered_by_file = filter (\<lambda>f. length (dict_get file_index (name f)) = 1) upstream,
         covered_by_file_multi =
           map (\<lambda>f. (f, filter (\<lambda>c. file_digest H fs c = file_digest H fs (path f))
                         (dict_get file_index (name f)),
                     dict_get file_index (name f)))
             (filter (\<lambda>f. length (dict_get file_index (name f)) > 1 \<and>
                          (\<exists>c \<in> set (dict_get file_index (name f)).
                             file_digest H fs c = file_digest H fs (path f))) upstream),
         covered_by_case_dir =
           filter (\<lambda>f. dict_get file_index (name f) = [] \<and>
                       case_dir_exists dir_names (normalize_case_id (package f) (case_id f)))
             upstream,
         missing =
           filter (\<lambda>f. dict_get file_index (name f) = [] \<and>
                       \<not> case_dir_exists dir_names (normalize_case_id (package f) (case_id f)))
             upstream,
         ambiguous =
           map (\<lambda>f. (f, dict_get file_index (name f)))
             (filter (\<lambda>f. length (dict_get file_index (name f)) > 1 \<and>
                          \<not> (\<exists>c \<in> set (dict_get file_index (name f)).
                               file_digest H fs c = file_digest H fs (path f))) upstream),
         drift =
           map (\<lambda>f. (f, hd (dict_get file_index (name f))))
             (filter (\<lambda>f. length (dict_get file_index (name f)) = 1 \<and>
                          file_digest H fs (path f)
                            \<noteq> file_digest H fs (hd (dict_get file_index (name f)))) upstream),
         opened =
           concat (map (\<lambda>f. if dict_get file_index (name f) = [] then []
                             else path f # dict_get file_index (name f)) upstream)\<rparr>"
proof -
  have up: "\<forall>f \<in> set upstream. is_file fs (path f)"
    using assms(1) iter_upstream_fixtures_is_file by auto
  have cs: "\<forall>f \<in> set upstream. \<forall>c \<in> set (dict_get file_index (name f)). is_file fs c"
    using assms(2) build_index_is_file by blast
  have "main H fs ai_root siumai_root ignore =
          classify_all H fs file_index dir_names start upstream"
    by (simp add: main_def assms split: prod.splits)
  then show ?thesis
    unfolding classify_all_files [OF up cs] by (simp add: start_def)
qed

text \<open>The same, list by list.\<close>

lemma main_returns: "\<exists>a. main H fs ai_root siumai_root ignore = Inr a"
  using main_buckets [OF refl refl refl] by blast

lemma main_covered_by_file:
  assumes "main H fs ai_root siumai_root ignore = Inr a"
    and "upstream = filter (\<lambda>f. package f \<notin> ignore) (iter_upstream_fixtures fs ai_root)"
    and "file_index = fst (build_siumai_fixture_index fs siumai_root)"
  shows "covered_by_file a = filter (\<lambda>f. length (dict_get file_index (name f)) = 1) upstream"
  using assms(1) unfolding main_buckets [OF assms(2,3) refl] by auto

lemma main_covered_by_file_multi:
  assumes "main H fs ai_root siumai_root ignore = Inr a"
    and "upstream = filter (\<lambda>f. package f \<notin> ignore) (iter_upstream_fixtures fs ai_root)"
    and "file_index = fst (build_siumai_fixture_index fs siumai_root)"
  shows "covered_by_file_multi a =
           map (\<lambda>f. (f, filter (\<lambda>c. file_digest H fs c = file_digest H fs (path f))
                         (dict_get file_index (name f)),
                     dict_get file_index (name f)))
             (filter (\<lambda>f. length (dict_get file_index (name f)) > 1 \<and>
                          (\<exists>c \<in> set (dict_get file_index (name f)).
                             file_digest H fs c = file_digest H fs (path f))) upstream)"
  using assms(1) unfolding main_buckets [OF assms(2,3) refl] by auto

lemma main_covered_by_case_dir:
  assumes "main H fs ai_root siumai_root ignore = Inr a"
    and "upstream = filter (\<lambda>f. package f \<notin> ignore) (iter_upstream_fixtures fs ai_root)"
    and "file_index = fst (build_siumai_fixture_index fs siumai_root)"
    and "dir_names = snd (build_siumai_fixture_index fs siumai_root)"
  shows "covered_by_case_dir a =
           filter (\<lambda>f. dict_get file_index (name f) = [] \<and>
                       case_dir_exists dir_names (normalize_case_id (package f) (case_id f)))
             upstream"
  using assms(1) unfolding main_buckets [OF assms(2,3,4)] by auto

lemma main_missing:
  assumes "main H fs ai_root siumai_root ignore = Inr a"
    and "upstream = filter (\<lambda>f. package f \<notin> ignore) (iter_upstream_fixtures fs ai_root)"
    and "file_index = fst (build_siumai_fixture_index fs siumai_root)"
    and "dir_names = snd (build_siumai_fixture_index fs siumai_root)"
  shows "missing a =
           filter (\<lambda>f. dict_get file_index (name f) = [] \<and>
                       \<not> case_dir_exists dir_names (normalize_case_id (package f) (case_id f)))
             upstream"
  using assms(1) unfolding main_buckets [OF assms(2,3,4)] by auto

lemma main_ambiguous:
  assumes "main H fs ai_root siumai_root ignore = Inr a"
    and "upstream = filter (\<lambda>f. package f \<notin> ignore) (iter_upstream_fixtures fs ai_root)"
    and "file_index = fst (build_siumai_fixture_index fs siumai_root)"
  shows "ambiguous a =
           map (\<lambda>f. (f, dict_get file_index (name f)))
             (filter (\<lambda>f. length (dict_get file_index (name f)) > 1 \<and>
                          \<not> (\<exists>c \<in> set (dict_get file_index (name f)).
                               file_digest H fs c = file_digest H fs (path f))) upstream)"
  using assms(1) unfolding main_buckets [OF assms(2,3) refl] by auto

lemma main_drift:
  assumes "main H fs ai_root siumai_root ignore = Inr a"
    and "upstream = filter (\<lambda>f. package f \<notin> ignore) (iter_upstream_fixtures fs ai_root)"
    and "file_index = fst (build_siumai_fixture_index fs siumai_root)"
  shows "drift a =
           map (\<lambda>f. (f, hd (dict_get file_index (name f))))
             (filter (\<lambda>f. length (dict_get file_index (name f)) = 1 \<and>
                          file_digest H fs (path f)
                            \<noteq> file_digest H fs (hd (dict_get file_index (name f)))) upstream)"
  using assms(1) unfolding main_buckets [OF assms(2,3) refl] by auto

lemma main_opened:
  assumes "main H fs ai_root siumai_root ignore = Inr a"
    and "upstream = filter (\<lambda>f. package f \<notin> ignore) (iter_upstream_fixtures fs ai_root)"
    and "file_index = fst (build_siumai_fixture_index fs siumai_root)"
  shows "opened a =
           concat (map (\<lambda>f. if dict_get file_index (name f) = [] then []
                             else path f # dict_get file_index (name f)) upstream)"
  using assms(1) unfolding main_buckets [OF assms(2,3) refl] by auto

lemma file_digest_eq_iff:
  assumes "open_rb fs p = Inr pb" "open_rb fs q = Inr qb"
  shows "file_digest H fs p = file_digest H fs q \<longleftrightarrow> digest H pb = digest H qb"
  using assms by (simp add: file_digest_def)

lemma is_file_open_rb: "is_file fs p \<Longrightarrow> \<exists>bs. open_rb fs p = Inr bs"
  using file_digest_is_file by blast

lemma length_one_hd: "length xs = Suc 0 \<Longrightarrow> xs = [hd xs]"
  by (cases xs) auto

text \<open>
  C1. \<open>main\<close> returns, and for every upstream fixture whose file name has exactly one
  local path in \<open>file_index\<close>: the fixture is in \<open>covered_by_file\<close> and in no other list;
  both files can be read, and the pair of the fixture and the sole local path is in
  \<open>drift\<close> if and only if the digests of the two files differ. Whether drift is recorded
  or not, the fixture is in \<open>covered_by_file\<close>; and every pair in \<open>drift\<close> is a fixture
  of \<open>covered_by_file\<close> with its sole local path.
\<close>

theorem one_candidate_covered_by_file:
  assumes "upstream = filter (\<lambda>f. package f \<notin> ignore) (iter_upstream_fixtures fs ai_root)"
    and "file_index = fst (build_siumai_fixture_index fs siumai_root)"
  shows "\<exists>a. main H fs ai_root siumai_root ignore = Inr a
    \<and> (\<forall>f \<in> set upstream. \<forall>si. dict_get file_index (name f) = [si] \<longrightarrow>
          f \<in> set (covered_by_file a)
        \<and> f \<notin> fst ` set (covered_by_file_multi a) \<and> f \<notin> set (covered_by_case_dir a)
        \<and> f \<notin> fst ` set (ambiguous a) \<and> f \<notin> set (missing a)
        \<and> (\<exists>ub sb. open_rb fs (path f) = Inr ub \<and> open_rb fs si = Inr sb
              \<and> ((f, si) \<in> set (drift a) \<longleftrightarrow> digest H ub \<noteq> digest H sb)))
    \<and> (\<forall>(f, si) \<in> set (drift a).
          f \<in> set (covered_by_file a) \<and> f \<in> set upstream \<and> dict_get file_index (name f) = [si])
    \<and> covered_by_file a = filter (\<lambda>f. length (dict_get file_index (name f)) = 1) upstream"
proof -
  obtain a where a: "main H fs ai_root siumai_root ignore = Inr a"
    using main_returns by blast
  note cbf = main_covered_by_file [OF a assms]
  note multi = main_covered_by_file_multi [OF a assms]
  note cdir = main_covered_by_case_dir [OF a assms refl]
  note amb = main_ambiguous [OF a assms]
  note miss = main_missing [OF a assms refl]
  note dr = main_drift [OF a assms]
  have one: "f \<in> set (covered_by_file a)
        \<and> f \<notin> fst ` set (covered_by_file_multi a) \<and> f \<notin> set (covered_by_case_dir a)
        \<and> f \<notin> fst ` set (ambiguous a) \<and> f \<notin> set (missing a)
        \<and> (\<exists>ub sb. open_rb fs (path f) = Inr ub \<and> open_rb fs si = Inr sb
              \<and> ((f, si) \<in> set (drift a) \<longleftrightarrow> digest H ub \<noteq> digest H sb))"
    if f: "f \<in> set upstream" and si: "dict_get file_index (name f) = [si]" for f si
  proof -
    have "is_file fs (path f)"
      using f assms(1) iter_upstream_fixtures_is_file by auto
    then obtain ub where ub: "open_rb fs (path f) = Inr ub"
      using is_file_open_rb by blast
    have "is_file fs si"
      using build_index_is_file [of si fs siumai_root "name f"] si assms(2) by simp
    then obtain sb where sb: "open_rb fs si = Inr sb"
      using is_file_open_rb by blast
    have "(f, si) \<in> set (drift a) \<longleftrightarrow> file_digest H fs (path f) \<noteq> file_digest H fs si"
      unfolding dr using f si by (auto simp: image_iff)
    then have "(f, si) \<in> set (drift a) \<longleftrightarrow> digest H ub \<noteq> digest H sb"
      using file_digest_eq_iff [OF ub sb] by simp
    moreover have "f \<in> set (covered_by_file a)" using cbf f si by simp
    moreover have "f \<notin> fst ` set (covered_by_file_multi a)" unfolding multi using si by auto
    moreover have "f \<notin> set (covered_by_case_dir a)" unfolding cdir using si by auto
    moreover have "f \<notin> fst ` set (ambiguous a)" unfolding amb using si by auto
    moreover have "f \<notin> set (missing a)" unfolding miss using si by auto
    ultimately show ?thesis using ub sb by blast
  qed
  have two: "\<forall>(f, si) \<in> set (drift a).
          f \<in> set (covered_by_file a) \<and> f \<in> set upstream \<and> dict_get file_index (name f) = [si]"
    unfolding dr cbf by (auto dest: length_one_hd)
  show ?thesis using a one two cbf by blast
qed

theorem one_candidate_covered_by_file_witness:
  "up_anthropic ''drift.json''
     \<in> set (filter (\<lambda>f. package f \<notin> {''langchain''}) (iter_upstream_fixtures fs_example [''ai'']))
   \<and> dict_get (fst (build_siumai_fixture_index fs_example [''si'']))
         (name (up_anthropic ''drift.json'')) = [si_path [''drift.json'']]
   \<and> dict_get (fst (build_siumai_fixture_index fs_example [''si'']))
         (name (up_anthropic ''baz.1.chunks.txt'')) = [si_path [''baz.1.chunks.txt'']]
   \<and> (\<exists>a. main content_hash fs_example [''ai''] [''si''] {''langchain''} = Inr a
         \<and> up_anthropic ''drift.json'' \<in> set (covered_by_file a)
         \<and> (up_anthropic ''drift.json'', si_path [''drift.json'']) \<in> set (drift a)
         \<and> up_anthropic ''baz.1.chunks.txt'' \<in> set (covered_by_file a)
         \<and> (up_anthropic ''baz.1.chunks.txt'', si_path [''baz.1.chunks.txt'']) \<notin> set (drift a)
         \<and> (\<forall>(f, p) \<in> set (drift a). f \<in> set (covered_by_file a)))"
proof -
  let ?upstream = "filter (\<lambda>f. package f \<notin> {''langchain''}) (iter_upstream_fixtures fs_example [''ai''])"
  let ?index = "fst (build_siumai_fixture_index fs_example [''si''])"
  have d_up: "up_anthropic ''drift.json'' \<in> set ?upstream"
    unfolding ex_not_ignored by simp
  have d_ix: "dict_get ?index (name (up_anthropic ''drift.json'')) = [si_path [''drift.json'']]"
    by (simp add: name_up_anthropic ex_candidates)
  have b_up: "up_anthropic ''baz.1.chunks.txt'' \<in> set ?upstream"
    unfolding ex_not_ignored by simp
  have b_ix: "dict_get ?index (name (up_anthropic ''baz.1.chunks.txt''))
                = [si_path [''baz.1.chunks.txt'']]"
    by (simp add: name_up_anthropic ex_candidates)
  note claim = one_candidate_covered_by_file [OF refl refl, where H = content_hash
        and fs = fs_example and ai_root = "[''ai'']" and siumai_root = "[''si'']"
        and ignore = "{''langchain''}"]
  show ?thesis
  proof (rule exE [OF claim], goal_cases)
    case (1 a)
    note a = 1 [THEN conjunct1]
    note d = 1 [THEN conjunct2, THEN conjunct1, rule_format, OF d_up d_ix]
    note b = 1 [THEN conjunct2, THEN conjunct1, rule_format, OF b_up b_ix]
    note dr = 1 [THEN conjunct2, THEN conjunct2, THEN conjunct1]
    have d1: "up_anthropic ''drift.json'' \<in> set (covered_by_file a)"
      using d by (rule conjunct1)
    obtain ub sb where "open_rb fs_example (path (up_anthropic ''drift.json'')) = Inr ub"
      "open_rb fs_example (si_path [''drift.json'']) = Inr sb"
      "(up_anthropic ''drift.json'', si_path [''drift.json'']) \<in> set (drift a)
         \<longleftrightarrow> digest content_hash ub \<noteq> digest content_hash sb"
      using d by blast
    then have d2: "(up_anthropic ''drift.json'', si_path [''drift.json'']) \<in> set (drift a)"
      by (auto simp: ex_open digest_content_hash)
    have b1: "up_anthropic ''baz.1.chunks.txt'' \<in> set (covered_by_file a)"
      using b by (rule conjunct1)
    obtain ub sb where "open_rb fs_example (path (up_anthropic ''baz.1.chunks.txt'')) = Inr ub"
      "open_rb fs_example (si_path [''baz.1.chunks.txt'']) = Inr sb"
      "(up_anthropic ''baz.1.chunks.txt'', si_path [''baz.1.chunks.txt'']) \<in> set (drift a)
         \<longleftrightarrow> digest content_hash ub \<noteq> digest content_hash sb"
      using b by blast
    then have b2: "(up_anthropic ''baz.1.chunks.txt'', si_path [''baz.1.chunks.txt''])
                     \<notin> set (drift a)"
      by (auto simp: ex_open digest_content_hash)
    have dr': "\<forall>(f, p) \<in> set (drift a). f \<in> set (covered_by_file a)"
      using dr by blast
    show ?case
      using a d1 d2 b1 b2 dr' d_up d_ix b_ix by blast
  qed
qed

lemma other_eq:
  "other cs (filter P cs) = filter (\<lambda>c. \<not> P c) cs"
  unfolding other_def by (rule filter_cong) auto

text \<open>
  C2. \<open>main\<close> returns, and for every upstream fixture whose file name has two or more
  local candidate paths in \<open>file_index\<close>: the upstream file and every candidate can be
  read; \<open>matching\<close> is the list of the candidates whose digest equals the upstream
  file's, and \<open>matching\<close> and the rest (the report's \<open>other\<close>) partition the candidates.
  If \<open>matching\<close> is not empty, the fixture is in \<open>covered_by_file_multi\<close> with \<open>matching\<close>
  and the full candidate list, and not in \<open>ambiguous\<close>. If \<open>matching\<close> is empty, the
  fixture is in \<open>ambiguous\<close> with all its candidates, and not in
  \<open>covered_by_file_multi\<close>. In both cases it is in none of the other three lists.
\<close>

theorem several_candidates_multi_or_ambiguous:
  assumes "upstream = filter (\<lambda>f. package f \<notin> ignore) (iter_upstream_fixtures fs ai_root)"
    and "file_index = fst (build_siumai_fixture_index fs siumai_root)"
  shows "\<exists>a. main H fs ai_root siumai_root ignore = Inr a
    \<and> (\<forall>f \<in> set upstream. 2 \<le> length (dict_get file_index (name f)) \<longrightarrow>
         (let candidates = dict_get file_index (name f);
              matching = filter (\<lambda>c. file_digest H fs c = file_digest H fs (path f)) candidates
          in (\<exists>ub. open_rb fs (path f) = Inr ub
                \<and> (\<forall>c \<in> set candidates. \<exists>cb. open_rb fs c = Inr cb
                      \<and> (c \<in> set matching \<longleftrightarrow> digest H cb = digest H ub)))
           \<and> set matching \<union> set (other candidates matching) = set candidates
           \<and> set matching \<inter> set (other candidates matching) = {}
           \<and> (matching \<noteq> [] \<longrightarrow> (f, matching, candidates) \<in> set (covered_by_file_multi a)
                                \<and> f \<notin> fst ` set (ambiguous a))
           \<and> (matching = [] \<longrightarrow> (f, candidates) \<in> set (ambiguous a)
                                \<and> f \<notin> fst ` set (covered_by_file_multi a))
           \<and> f \<notin> set (covered_by_file a) \<and> f \<notin> set (covered_by_case_dir a)
           \<and> f \<notin> set (missing a)))"
proof -
  obtain a where a: "main H fs ai_root siumai_root ignore = Inr a"
    using main_returns by blast
  note cbf = main_covered_by_file [OF a assms]
  note multi = main_covered_by_file_multi [OF a assms]
  note cdir = main_covered_by_case_dir [OF a assms refl]
  note amb = main_ambiguous [OF a assms]
  note miss = main_missing [OF a assms refl]
  have "(\<exists>ub. open_rb fs (path f) = Inr ub
                \<and> (\<forall>c \<in> set candidates. \<exists>cb. open_rb fs c = Inr cb
                      \<and> (c \<in> set matching \<longleftrightarrow> digest H cb = digest H ub)))
           \<and> set matching \<union> set (other candidates matching) = set candidates
           \<and> set matching \<inter> set (other candidates matching) = {}
           \<and> (matching \<noteq> [] \<longrightarrow> (f, matching, candidates) \<in> set (covered_by_file_multi a)
                                \<and> f \<notin> fst ` set (ambiguous a))
           \<and> (matching = [] \<longrightarrow> (f, candidates) \<in> set (ambiguous a)
                                \<and> f \<notin> fst ` set (covered_by_file_multi a))
           \<and> f \<notin> set (covered_by_file a) \<and> f \<notin> set (covered_by_case_dir a)
           \<and> f \<notin> set (missing a)"
    if f: "f \<in> set upstream" and len: "2 \<le> length (dict_get file_index (name f))"
      and cands: "candidates = dict_get file_index (name f)"
      and matching: "matching = filter (\<lambda>c. file_digest H fs c = file_digest H fs (path f)) candidates"
    for f candidates matching
  proof -
    have "is_file fs (path f)"
      using f assms(1) iter_upstream_fixtures_is_file by auto
    then obtain ub where ub: "open_rb fs (path f) = Inr ub"
      using is_file_open_rb by blast
    have each: "\<exists>cb. open_rb fs c = Inr cb \<and> (c \<in> set matching \<longleftrightarrow> digest H cb = digest H ub)"
      if c: "c \<in> set candidates" for c
    proof -
      have "is_file fs c"
        using build_index_is_file [of c fs siumai_root "name f"] c cands assms(2) by simp
      then obtain cb where cb: "open_rb fs c = Inr cb"
        using is_file_open_rb by blast
      have "c \<in> set matching \<longleftrightarrow> digest H cb = digest H ub"
        unfolding matching using c file_digest_eq_iff [OF cb ub] by simp
      then show ?thesis using cb by blast
    qed
    have o: "other candidates matching
               = filter (\<lambda>c. file_digest H fs c \<noteq> file_digest H fs (path f)) candidates"
      unfolding matching by (rule other_eq)
    have part: "set matching \<union> set (other candidates matching) = set candidates"
      "set matching \<inter> set (other candidates matching) = {}"
      using o unfolding matching by auto
    have ne: "matching \<noteq> [] \<longleftrightarrow> (\<exists>c \<in> set (dict_get file_index (name f)).
                             file_digest H fs c = file_digest H fs (path f))"
      unfolding matching cands by (simp add: filter_empty_conv)
    have m1: "matching \<noteq> [] \<longrightarrow> (f, matching, candidates) \<in> set (covered_by_file_multi a)
                                \<and> f \<notin> fst ` set (ambiguous a)"
      unfolding multi amb using f len ne cands matching by (auto simp: image_iff)
    have m2: "matching = [] \<longrightarrow> (f, candidates) \<in> set (ambiguous a)
                                \<and> f \<notin> fst ` set (covered_by_file_multi a)"
      unfolding multi amb using f len ne cands matching by (auto simp: image_iff)
    have m3: "f \<notin> set (covered_by_file a)" "f \<notin> set (covered_by_case_dir a)"
      "f \<notin> set (missing a)"
      unfolding cbf cdir miss using len by auto
    show ?thesis using ub each part m1 m2 m3 by blast
  qed
  then show ?thesis using a unfolding Let_def by blast
qed

theorem several_candidates_multi_or_ambiguous_witness:
  "up_anthropic ''dup.json''
     \<in> set (filter (\<lambda>f. package f \<notin> {''langchain''}) (iter_upstream_fixtures fs_example [''ai'']))
   \<and> 2 \<le> length (dict_get (fst (build_siumai_fixture_index fs_example [''si'']))
                    (name (up_anthropic ''dup.json'')))
   \<and> 2 \<le> length (dict_get (fst (build_siumai_fixture_index fs_example [''si'']))
                    (name (up_anthropic ''amb.json'')))
   \<and> (\<exists>a. main content_hash fs_example [''ai''] [''si''] {''langchain''} = Inr a
         \<and> (up_anthropic ''dup.json'', [si_path [''d1'', ''dup.json'']],
              [si_path [''d1'', ''dup.json''], si_path [''d2'', ''dup.json'']])
             \<in> set (covered_by_file_multi a)
         \<and> (up_anthropic ''amb.json'',
              [si_path [''d1'', ''amb.json''], si_path [''d2'', ''amb.json'']])
             \<in> set (ambiguous a))"
proof -
  let ?upstream = "filter (\<lambda>f. package f \<notin> {''langchain''}) (iter_upstream_fixtures fs_example [''ai''])"
  let ?index = "fst (build_siumai_fixture_index fs_example [''si''])"
  have d_up: "up_anthropic ''dup.json'' \<in> set ?upstream"
    unfolding ex_not_ignored by simp
  have d_ix: "2 \<le> length (dict_get ?index (name (up_anthropic ''dup.json'')))"
    by (simp add: name_up_anthropic ex_candidates)
  have a_up: "up_anthropic ''amb.json'' \<in> set ?upstream"
    unfolding ex_not_ignored by simp
  have a_ix: "2 \<le> length (dict_get ?index (name (up_anthropic ''amb.json'')))"
    by (simp add: name_up_anthropic ex_candidates)
  note claim = several_candidates_multi_or_ambiguous [OF refl refl, where H = content_hash
        and fs = fs_example and ai_root = "[''ai'']" and siumai_root = "[''si'']"
        and ignore = "{''langchain''}"]
  show ?thesis
  proof (rule exE [OF claim], goal_cases)
    case (1 a)
    note a = 1 [THEN conjunct1]
    note d = 1 [THEN conjunct2, rule_format, OF d_up d_ix]
    note b = 1 [THEN conjunct2, rule_format, OF a_up a_ix]
    have d1: "(up_anthropic ''dup.json'', [si_path [''d1'', ''dup.json'']],
              [si_path [''d1'', ''dup.json''], si_path [''d2'', ''dup.json'']])
             \<in> set (covered_by_file_multi a)"
      using d
      by (simp add: Let_def name_up_anthropic ex_candidates file_digest_content_hash ex_open)
    have b1: "(up_anthropic ''amb.json'',
              [si_path [''d1'', ''amb.json''], si_path [''d2'', ''amb.json'']])
             \<in> set (ambiguous a)"
      using b
      by (simp add: Let_def name_up_anthropic ex_candidates file_digest_content_hash ex_open)
    show ?case using a d1 b1 d_up d_ix a_ix by blast
  qed
qed

lemma mset_five_filters:
  assumes "\<forall>x \<in> set xs. (P1 x \<or> P2 x \<or> P3 x \<or> P4 x \<or> P5 x)
      \<and> \<not> (P1 x \<and> P2 x) \<and> \<not> (P1 x \<and> P3 x) \<and> \<not> (P1 x \<and> P4 x) \<and> \<not> (P1 x \<and> P5 x)
      \<and> \<not> (P2 x \<and> P3 x) \<and> \<not> (P2 x \<and> P4 x) \<and> \<not> (P2 x \<and> P5 x)
      \<and> \<not> (P3 x \<and> P4 x) \<and> \<not> (P3 x \<and> P5 x) \<and> \<not> (P4 x \<and> P5 x)"
  shows "mset (filter P1 xs) + mset (filter P2 xs) + mset (filter P3 xs)
           + mset (filter P4 xs) + mset (filter P5 xs) = mset xs"
  using assms
proof (induction xs)
  case Nil
  then show ?case by simp
next
  case (Cons x xs)
  then have IH: "mset (filter P1 xs) + mset (filter P2 xs) + mset (filter P3 xs)
           + mset (filter P4 xs) + mset (filter P5 xs) = mset xs"
    by simp
  have x: "(P1 x \<or> P2 x \<or> P3 x \<or> P4 x \<or> P5 x)
      \<and> \<not> (P1 x \<and> P2 x) \<and> \<not> (P1 x \<and> P3 x) \<and> \<not> (P1 x \<and> P4 x) \<and> \<not> (P1 x \<and> P5 x)
      \<and> \<not> (P2 x \<and> P3 x) \<and> \<not> (P2 x \<and> P4 x) \<and> \<not> (P2 x \<and> P5 x)
      \<and> \<not> (P3 x \<and> P4 x) \<and> \<not> (P3 x \<and> P5 x) \<and> \<not> (P4 x \<and> P5 x)"
    using Cons.prems by simp
  consider "P1 x" | "P2 x" | "P3 x" | "P4 x" | "P5 x" using x by blast
  then show ?case
    using x IH [symmetric] by cases (auto simp: ac_simps)
qed

text \<open>
  C3. \<open>main\<close> returns. The upstream fixtures it classifies are the enumerated ones whose
  package is not ignored, and each of them is in exactly one of the five lists
  \<open>covered_by_file\<close>, \<open>covered_by_file_multi\<close>, \<open>covered_by_case_dir\<close>, \<open>ambiguous\<close>,
  \<open>missing\<close>: as multisets the five lists add up to the upstream list, and so the five
  counts add up to its length. A fixture without a candidate of its file name is in
  \<open>covered_by_case_dir\<close> if \<open>case_dir_exists\<close> holds for its normalized case id, and in
  \<open>missing\<close> otherwise. A fixture of an ignored package is in no list.
\<close>

theorem every_fixture_in_one_list:
  assumes "upstream = filter (\<lambda>f. package f \<notin> ignore) (iter_upstream_fixtures fs ai_root)"
    and "file_index = fst (build_siumai_fixture_index fs siumai_root)"
    and "dir_names = snd (build_siumai_fixture_index fs siumai_root)"
  shows "\<exists>a. main H fs ai_root siumai_root ignore = Inr a
    \<and> length (covered_by_file a) + length (covered_by_file_multi a)
        + length (covered_by_case_dir a) + length (ambiguous a) + length (missing a)
        = length upstream
    \<and> mset (covered_by_file a) + mset (map fst (covered_by_file_multi a))
        + mset (covered_by_case_dir a) + mset (map fst (ambiguous a)) + mset (missing a)
        = mset upstream
    \<and> (\<forall>f \<in> set upstream.
          (if f \<in> set (covered_by_file a) then 1 else 0)
        + (if f \<in> fst ` set (covered_by_file_multi a) then 1 else 0)
        + (if f \<in> set (covered_by_case_dir a) then 1 else 0)
        + (if f \<in> fst ` set (ambiguous a) then 1 else 0)
        + (if f \<in> set (missing a) then 1 else 0) = (1::nat))
    \<and> (\<forall>f \<in> set upstream. dict_get file_index (name f) = [] \<longrightarrow>
          (if case_dir_exists dir_names (normalize_case_id (package f) (case_id f))
           then f \<in> set (covered_by_case_dir a) \<and> f \<notin> set (missing a)
           else f \<in> set (missing a) \<and> f \<notin> set (covered_by_case_dir a)))
    \<and> (\<forall>f \<in> set (iter_upstream_fixtures fs ai_root). package f \<in> ignore \<longrightarrow>
          f \<notin> set (covered_by_file a) \<and> f \<notin> fst ` set (covered_by_file_multi a)
        \<and> f \<notin> set (covered_by_case_dir a) \<and> f \<notin> fst ` set (ambiguous a)
        \<and> f \<notin> set (missing a))"
proof -
  obtain a where a: "main H fs ai_root siumai_root ignore = Inr a"
    using main_returns by blast
  let ?n = "\<lambda>f. length (dict_get file_index (name f))"
  let ?E = "\<lambda>f. \<exists>c \<in> set (dict_get file_index (name f)).
                  file_digest H fs c = file_digest H fs (path f)"
  let ?C = "\<lambda>f. case_dir_exists dir_names (normalize_case_id (package f) (case_id f))"
  let ?P1 = "\<lambda>f. ?n f = 1"
  let ?P2 = "\<lambda>f. ?n f > 1 \<and> ?E f"
  let ?P3 = "\<lambda>f. dict_get file_index (name f) = [] \<and> ?C f"
  let ?P4 = "\<lambda>f. ?n f > 1 \<and> \<not> ?E f"
  let ?P5 = "\<lambda>f. dict_get file_index (name f) = [] \<and> \<not> ?C f"
  have cbf: "covered_by_file a = filter ?P1 upstream"
    using main_covered_by_file [OF a assms(1,2)] .
  have multi: "map fst (covered_by_file_multi a) = filter ?P2 upstream"
    unfolding main_covered_by_file_multi [OF a assms(1,2)] by (simp add: comp_def)
  have cdir: "covered_by_case_dir a = filter ?P3 upstream"
    using main_covered_by_case_dir [OF a assms] .
  have amb: "map fst (ambiguous a) = filter ?P4 upstream"
    unfolding main_ambiguous [OF a assms(1,2)] by (simp add: comp_def)
  have miss: "missing a = filter ?P5 upstream"
    using main_missing [OF a assms] .
  have sets: "fst ` set (covered_by_file_multi a) = set (filter ?P2 upstream)"
    "fst ` set (ambiguous a) = set (filter ?P4 upstream)"
    using multi amb by (metis set_map)+
  have excl: "\<forall>f \<in> set upstream. (?P1 f \<or> ?P2 f \<or> ?P3 f \<or> ?P4 f \<or> ?P5 f)
      \<and> \<not> (?P1 f \<and> ?P2 f) \<and> \<not> (?P1 f \<and> ?P3 f) \<and> \<not> (?P1 f \<and> ?P4 f) \<and> \<not> (?P1 f \<and> ?P5 f)
      \<and> \<not> (?P2 f \<and> ?P3 f) \<and> \<not> (?P2 f \<and> ?P4 f) \<and> \<not> (?P2 f \<and> ?P5 f)
      \<and> \<not> (?P3 f \<and> ?P4 f) \<and> \<not> (?P3 f \<and> ?P5 f) \<and> \<not> (?P4 f \<and> ?P5 f)"
  proof
    fix f assume "f \<in> set upstream"
    consider "dict_get file_index (name f) = []" | "?n f = 1" | "?n f > 1"
      by (cases "dict_get file_index (name f)") (auto simp: less_Suc_eq_0_disj)
    then show "(?P1 f \<or> ?P2 f \<or> ?P3 f \<or> ?P4 f \<or> ?P5 f)
      \<and> \<not> (?P1 f \<and> ?P2 f) \<and> \<not> (?P1 f \<and> ?P3 f) \<and> \<not> (?P1 f \<and> ?P4 f) \<and> \<not> (?P1 f \<and> ?P5 f)
      \<and> \<not> (?P2 f \<and> ?P3 f) \<and> \<not> (?P2 f \<and> ?P4 f) \<and> \<not> (?P2 f \<and> ?P5 f)
      \<and> \<not> (?P3 f \<and> ?P4 f) \<and> \<not> (?P3 f \<and> ?P5 f) \<and> \<not> (?P4 f \<and> ?P5 f)"
      by cases auto
  qed
  have m: "mset (covered_by_file a) + mset (map fst (covered_by_file_multi a))
        + mset (covered_by_case_dir a) + mset (map fst (ambiguous a)) + mset (missing a)
        = mset upstream"
    unfolding cbf multi cdir amb miss by (rule mset_five_filters) (rule excl)
  have "size (mset (covered_by_file a) + mset (map fst (covered_by_file_multi a))
        + mset (covered_by_case_dir a) + mset (map fst (ambiguous a)) + mset (missing a))
        = size (mset upstream)"
    using m by simp
  then have l: "length (covered_by_file a) + length (covered_by_file_multi a)
        + length (covered_by_case_dir a) + length (ambiguous a) + length (missing a)
        = length upstream"
    by simp
  have one: "\<forall>f \<in> set upstream.
          (if f \<in> set (covered_by_file a) then 1 else 0)
        + (if f \<in> fst ` set (covered_by_file_multi a) then 1 else 0)
        + (if f \<in> set (covered_by_case_dir a) then 1 else 0)
        + (if f \<in> fst ` set (ambiguous a) then 1 else 0)
        + (if f \<in> set (missing a) then 1 else 0) = (1::nat)"
  proof
    fix f assume f: "f \<in> set upstream"
    consider "?P1 f" | "?P2 f" | "?P3 f" | "?P4 f" | "?P5 f" using excl f by blast
    then show "(if f \<in> set (covered_by_file a) then 1 else 0)
        + (if f \<in> fst ` set (covered_by_file_multi a) then 1 else 0)
        + (if f \<in> set (covered_by_case_dir a) then 1 else 0)
        + (if f \<in> fst ` set (ambiguous a) then 1 else 0)
        + (if f \<in> set (missing a) then 1 else 0) = (1::nat)"
      unfolding sets cbf cdir miss using f by cases auto
  qed
  have zero: "\<forall>f \<in> set upstream. dict_get file_index (name f) = [] \<longrightarrow>
          (if case_dir_exists dir_names (normalize_case_id (package f) (case_id f))
           then f \<in> set (covered_by_case_dir a) \<and> f \<notin> set (missing a)
           else f \<in> set (missing a) \<and> f \<notin> set (covered_by_case_dir a))"
    unfolding cdir miss by simp
  have ign: "\<forall>f \<in> set (iter_upstream_fixtures fs ai_root). package f \<in> ignore \<longrightarrow>
          f \<notin> set (covered_by_file a) \<and> f \<notin> fst ` set (covered_by_file_multi a)
        \<and> f \<notin> set (covered_by_case_dir a) \<and> f \<notin> fst ` set (ambiguous a)
        \<and> f \<notin> set (missing a)"
    unfolding sets cbf cdir miss by (simp add: assms(1))
  show ?thesis using a l m one zero ign by blast
qed

theorem every_fixture_in_one_list_witness:
  "up_openai \<in> set (filter (\<lambda>f. package f \<notin> {''langchain''})
                          (iter_upstream_fixtures fs_example [''ai'']))
   \<and> dict_get (fst (build_siumai_fixture_index fs_example [''si''])) (name up_openai) = []
   \<and> up_langchain \<in> set (iter_upstream_fixtures fs_example [''ai''])
   \<and> package up_langchain \<in> {''langchain''}
   \<and> (\<exists>a. main content_hash fs_example [''ai''] [''si''] {''langchain''} = Inr a
         \<and> length (covered_by_file a) + length (covered_by_file_multi a)
             + length (covered_by_case_dir a) + length (ambiguous a) + length (missing a) = 7
         \<and> up_openai \<in> set (covered_by_case_dir a) \<and> up_openai \<notin> set (missing a)
         \<and> up_xai \<in> set (covered_by_case_dir a)
         \<and> up_anthropic ''gone.json'' \<in> set (missing a)
         \<and> up_langchain \<notin> set (covered_by_file a) \<and> up_langchain \<notin> set (missing a)
         \<and> up_langchain \<notin> set (covered_by_case_dir a))"
proof -
  let ?upstream = "filter (\<lambda>f. package f \<notin> {''langchain''}) (iter_upstream_fixtures fs_example [''ai''])"
  let ?index = "fst (build_siumai_fixture_index fs_example [''si''])"
  have o_up: "up_openai \<in> set ?upstream"
    unfolding ex_not_ignored by simp
  have o_ix: "dict_get ?index (name up_openai) = []"
    by (simp add: ex_names ex_candidates)
  have x_up: "up_xai \<in> set ?upstream"
    unfolding ex_not_ignored by simp
  have x_ix: "dict_get ?index (name up_xai) = []"
    by (simp add: ex_names ex_candidates)
  have g_up: "up_anthropic ''gone.json'' \<in> set ?upstream"
    unfolding ex_not_ignored by simp
  have g_ix: "dict_get ?index (name (up_anthropic ''gone.json'')) = []"
    by (simp add: name_up_anthropic ex_candidates)
  have l_up: "up_langchain \<in> set (iter_upstream_fixtures fs_example [''ai''])"
    unfolding ex_upstream by simp
  have l_pkg: "package up_langchain \<in> {''langchain''}"
    by (simp add: up_langchain_def)
  note claim = every_fixture_in_one_list [OF refl refl refl, where H = content_hash
        and fs = fs_example and ai_root = "[''ai'']" and siumai_root = "[''si'']"
        and ignore = "{''langchain''}"]
  show ?thesis
  proof (rule exE [OF claim], goal_cases)
    case (1 a)
    note a = 1 [THEN conjunct1]
    note len = 1 [THEN conjunct2, THEN conjunct1]
    note zero = 1 [THEN conjunct2, THEN conjunct2, THEN conjunct2, THEN conjunct2, THEN conjunct1]
    note ign = 1 [THEN conjunct2, THEN conjunct2, THEN conjunct2, THEN conjunct2, THEN conjunct2,
        rule_format, OF l_up l_pkg]
    have l: "length (covered_by_file a) + length (covered_by_file_multi a)
             + length (covered_by_case_dir a) + length (ambiguous a) + length (missing a) = 7"
      using len unfolding ex_not_ignored by simp
    have o: "up_openai \<in> set (covered_by_case_dir a) \<and> up_openai \<notin> set (missing a)"
      using zero [rule_format, OF o_up o_ix] by (simp add: ex_dir_names ex_case_ids ex_case_dirs)
    have x: "up_xai \<in> set (covered_by_case_dir a)"
      using zero [rule_format, OF x_up x_ix] by (simp add: ex_dir_names ex_case_ids ex_case_dirs)
    have g: "up_anthropic ''gone.json'' \<in> set (missing a)"
      using zero [rule_format, OF g_up g_ix] by (simp add: ex_dir_names ex_case_ids ex_case_dirs)
    show ?case using a l o x g ign o_up o_ix l_up l_pkg by blast
  qed
qed

lemma classify_all_no_index:
  "classify_all H fs Map.empty {} a upstream = Inr (a\<lparr>missing := missing a @ upstream\<rparr>)"
proof (induction upstream arbitrary: a)
  case Nil
  then show ?case by simp
next
  case (Cons f upstream)
  have "classify H fs Map.empty {} a f = Inr (a\<lparr>missing := missing a @ [f]\<rparr>)"
    by (simp add: classify_none dict_get_def case_dir_exists_def)
  then show ?case by (simp add: Cons.IH)
qed

text \<open>
  C8. If the upstream root or its \<open>packages\<close> subdirectory does not exist, the
  enumeration returns the empty list, and \<open>main\<close> returns with all its lists empty. If
  the local root or its fixtures directory does not exist, the index is empty (no file
  names, no directory names), and \<open>main\<close> returns with every upstream fixture of a
  package that is not ignored in \<open>missing\<close> and nothing in the other lists.
\<close>

theorem missing_roots_yield_empty:
  "(resolve fs ai_root = None \<or> resolve fs (ai_root @ [''packages'']) = None \<longrightarrow>
      iter_upstream_fixtures fs ai_root = []
    \<and> main H fs ai_root siumai_root ignore = Inr start)
   \<and> (resolve fs siumai_root = None
        \<or> resolve fs (siumai_root @ [''siumai'', ''tests'', ''fixtures'']) = None \<longrightarrow>
      build_siumai_fixture_index fs siumai_root = (Map.empty, {})
    \<and> main H fs ai_root siumai_root ignore =
        Inr (start\<lparr>missing :=
               filter (\<lambda>f. package f \<notin> ignore) (iter_upstream_fixtures fs ai_root)\<rparr>))"
proof (intro conjI impI)
  assume "resolve fs ai_root = None \<or> resolve fs (ai_root @ [''packages'']) = None"
  then have "resolve fs (ai_root @ [''packages'']) = None"
    using resolve_None_append by blast
  then show none: "iter_upstream_fixtures fs ai_root = []"
    by (rule iter_upstream_fixtures_missing)
  show "main H fs ai_root siumai_root ignore = Inr start"
    by (simp add: main_def none split: prod.splits)
next
  assume "resolve fs siumai_root = None
        \<or> resolve fs (siumai_root @ [''siumai'', ''tests'', ''fixtures'']) = None"
  then have "resolve fs (siumai_root @ [''siumai'', ''tests'', ''fixtures'']) = None"
    using resolve_None_append by blast
  then show none: "build_siumai_fixture_index fs siumai_root = (Map.empty, {})"
    by (rule build_index_missing)
  show "main H fs ai_root siumai_root ignore =
        Inr (start\<lparr>missing :=
               filter (\<lambda>f. package f \<notin> ignore) (iter_upstream_fixtures fs ai_root)\<rparr>)"
    by (simp add: main_def none classify_all_no_index start_def)
qed

theorem missing_roots_yield_empty_witness:
  "resolve fs_example [''nowhere''] = None
   \<and> iter_upstream_fixtures fs_example [''nowhere''] = []
   \<and> main content_hash fs_example [''nowhere''] [''si''] {''langchain''} = Inr start
   \<and> build_siumai_fixture_index fs_example [''nowhere''] = (Map.empty, {})
   \<and> main content_hash fs_example [''ai''] [''nowhere''] {''langchain''} =
        Inr (start\<lparr>missing :=
               [up_anthropic ''amb.json'', up_anthropic ''baz.1.chunks.txt'',
                up_anthropic ''drift.json'', up_anthropic ''dup.json'',
                up_anthropic ''gone.json'', up_openai, up_xai]\<rparr>)"
proof -
  have none: "resolve fs_example [''nowhere''] = None"
    by (simp add: fs_example_def)
  have up: "filter (\<lambda>f. package f \<noteq> ''langchain'') (iter_upstream_fixtures fs_example [''ai''])
      = [up_anthropic ''amb.json'', up_anthropic ''baz.1.chunks.txt'',
         up_anthropic ''drift.json'', up_anthropic ''dup.json'',
         up_anthropic ''gone.json'', up_openai, up_xai]"
    using ex_not_ignored by simp
  show ?thesis
    using none
      missing_roots_yield_empty [of fs_example "[''nowhere'']" content_hash "[''si'']" "{''langchain''}"]
      missing_roots_yield_empty [of fs_example "[''ai'']" content_hash "[''nowhere'']" "{''langchain''}"]
    by (simp add: up)
qed

text \<open>
  In the tree \<open>fs_multi\<close> the only upstream fixture has two local candidates, so there is
  no match of one file to one file and no drift check: \<open>covered_by_file\<close> and \<open>drift\<close>
  stay empty. The digests of the upstream file and of both candidates are computed
  all the same, to choose between \<open>covered_by_file_multi\<close> and \<open>ambiguous\<close>.
\<close>

theorem hashing_without_drift_check_counterexample:
  "main content_hash fs_multi [''ai''] [''si''] {} =
     Inr \<lparr>covered_by_file = [],
          covered_by_file_multi =
            [(up_anthropic ''dup.json'', [si_path [''d1'', ''dup.json'']],
              [si_path [''d1'', ''dup.json''], si_path [''d2'', ''dup.json'']])],
          covered_by_case_dir = [], missing = [], ambiguous = [], drift = [],
          opened = [path (up_anthropic ''dup.json''),
                    si_path [''d1'', ''dup.json''], si_path [''d2'', ''dup.json'']]\<rparr>"
  unfolding main_buckets [OF refl refl refl]
  by (simp add: ex_multi_upstream name_up_anthropic ex_multi_candidates
        file_digest_content_hash ex_multi_open)

text \<open>
  C9, amended. Building the local index reads no file content: two trees that differ in
  file contents only have the same index. \<open>main\<close> returns, and the files it has hashed
  are, fixture by fixture in the order of \<open>upstream\<close>: none for a fixture without a
  candidate of its file name, and otherwise the upstream file followed by every
  candidate (one candidate for the drift check, several for the choice between
  \<open>covered_by_file_multi\<close> and \<open>ambiguous\<close>). The loop body for a fixture without a
  candidate returns and leaves the log of hashed files as it was.
\<close>

theorem hashing_only_with_candidates:
  assumes "upstream = filter (\<lambda>f. package f \<notin> ignore) (iter_upstream_fixtures fs ai_root)"
    and "file_index = fst (build_siumai_fixture_index fs siumai_root)"
  shows "(\<forall>fs'. without_content fs' = without_content fs \<longrightarrow>
            build_siumai_fixture_index fs' siumai_root = build_siumai_fixture_index fs siumai_root)
    \<and> (\<exists>a. main H fs ai_root siumai_root ignore = Inr a
          \<and> opened a = concat (map (\<lambda>f. if dict_get file_index (name f) = [] then []
                                         else path f # dict_get file_index (name f)) upstream))
    \<and> (\<forall>index dir_names a0 f. dict_get index (name f) = [] \<longrightarrow>
          (\<exists>a1. classify H fs index dir_names a0 f = Inr a1 \<and> opened a1 = opened a0))"
proof (intro conjI allI impI)
  fix fs' assume "without_content fs' = without_content fs"
  then show "build_siumai_fixture_index fs' siumai_root = build_siumai_fixture_index fs siumai_root"
    using build_index_without_content [of fs siumai_root]
      build_index_without_content [of fs' siumai_root] by simp
next
  obtain a where a: "main H fs ai_root siumai_root ignore = Inr a"
    using main_returns by blast
  then show "\<exists>a. main H fs ai_root siumai_root ignore = Inr a
          \<and> opened a = concat (map (\<lambda>f. if dict_get file_index (name f) = [] then []
                                         else path f # dict_get file_index (name f)) upstream)"
    using main_opened [OF a assms] by blast
next
  fix index :: "string \<rightharpoonup> path list" and dir_names a0 f
  assume "dict_get index (name f) = []"
  then show "\<exists>a1. classify H fs index dir_names a0 f = Inr a1 \<and> opened a1 = opened a0"
    by (simp add: classify_none)
qed

theorem hashing_only_with_candidates_witness:
  "without_content (without_content fs_example) = without_content fs_example
   \<and> build_siumai_fixture_index (without_content fs_example) [''si'']
       = build_siumai_fixture_index fs_example [''si'']
   \<and> dict_get (fst (build_siumai_fixture_index fs_example [''si''])) (name up_openai) = []
   \<and> (\<exists>a1. classify content_hash fs_example (fst (build_siumai_fixture_index fs_example [''si'']))
               (snd (build_siumai_fixture_index fs_example [''si''])) start up_openai = Inr a1
          \<and> opened a1 = opened start)
   \<and> (\<exists>a. main content_hash fs_example [''ai''] [''si''] {''langchain''} = Inr a
         \<and> opened a =
             [path (up_anthropic ''amb.json''),
                si_path [''d1'', ''amb.json''], si_path [''d2'', ''amb.json''],
              path (up_anthropic ''baz.1.chunks.txt''), si_path [''baz.1.chunks.txt''],
              path (up_anthropic ''drift.json''), si_path [''drift.json''],
              path (up_anthropic ''dup.json''),
                si_path [''d1'', ''dup.json''], si_path [''d2'', ''dup.json'']])"
proof -
  let ?index = "fst (build_siumai_fixture_index fs_example [''si''])"
  have same: "without_content (without_content fs_example) = without_content fs_example"
    by code_simp
  have o_ix: "dict_get ?index (name up_openai) = []"
    by (simp add: ex_names ex_candidates)
  note claim = hashing_only_with_candidates [OF refl refl, where H = content_hash
        and fs = fs_example and ai_root = "[''ai'']" and siumai_root = "[''si'']"
        and ignore = "{''langchain''}"]
  note frame = claim [THEN conjunct1, rule_format, OF same]
  note step = claim [THEN conjunct2, THEN conjunct2, rule_format, OF o_ix]
  show ?thesis
  proof (rule exE [OF claim [THEN conjunct2, THEN conjunct1]], goal_cases)
    case (1 a)
    note a = 1 [THEN conjunct1]
    have "opened a =
             [path (up_anthropic ''amb.json''),
                si_path [''d1'', ''amb.json''], si_path [''d2'', ''amb.json''],
              path (up_anthropic ''baz.1.chunks.txt''), si_path [''baz.1.chunks.txt''],
              path (up_anthropic ''drift.json''), si_path [''drift.json''],
              path (up_anthropic ''dup.json''),
                si_path [''d1'', ''dup.json''], si_path [''d2'', ''dup.json'']]"
      unfolding 1 [THEN conjunct2] ex_not_ignored
      by (simp add: name_up_anthropic ex_names ex_candidates)
    then show ?case using a same frame o_ix step by blast
  qed
qed

section \<open>Nested fixture directories\<close>

lemma length_filter_concat:
  "length (filter P (concat xss)) = sum_list (map (\<lambda>xs. length (filter P xs)) xss)"
  by (induction xss) simp_all

lemma sum_list_indicator:
  "sum_list (map (\<lambda>d. if P d then 1 else 0) ds) = length (filter P ds)"
  by (induction ds) simp_all

lemma sum_list_one_entry:
  assumes "distinct (map fst es)" "(n, c) \<in> set es" "\<forall>e \<in> set es. fst e \<noteq> n \<longrightarrow> h e = (0::nat)"
  shows "sum_list (map h es) = h (n, c)"
  using assms
proof (induction es)
  case Nil
  then show ?case by simp
next
  case (Cons e es)
  show ?case
  proof (cases "e = (n, c)")
    case True
    then have "\<forall>e' \<in> set es. fst e' \<noteq> n" using Cons.prems(1) by force
    then have "\<forall>e' \<in> set es. h e' = 0" using Cons.prems(3) by simp
    then have "sum_list (map h es) = 0" by simp
    then show ?thesis using True by simp
  next
    case False
    then have in_es: "(n, c) \<in> set es" using Cons.prems(2) by simp
    then have "n \<in> fst ` set es" by force
    then have "fst e \<noteq> n" using Cons.prems(1) by auto
    then have "h e = 0" using Cons.prems(3) by simp
    moreover have "sum_list (map h es) = h (n, c)"
      using Cons.IH in_es Cons.prems by simp
    ultimately show ?thesis by simp
  qed
qed

lemma count_named_ancestors:
  assumes "wf_node nd" "resolve nd rel = Some (File b)"
  shows "length (filter (\<lambda>r. path_name r = nm \<and> (\<exists>r'. r' \<noteq> [] \<and> rel = r @ r')) (walk [] nd))
           = length (filter (\<lambda>n. n = nm) (butlast rel))"
  using assms
proof (induction rel arbitrary: nd)
  case Nil
  then show ?case by simp
next
  case (Cons n rel)
  obtain es where nd: "nd = Dir es" using Cons.prems(2) by (cases nd) simp_all
  obtain c where c: "map_of es n = Some c" "resolve c rel = Some (File b)"
    using Cons.prems(2) nd by (auto split: option.splits)
  have e: "(n, c) \<in> set es" using c(1) by (simp add: map_of_SomeD)
  have d: "distinct (map fst es)" using Cons.prems(1) nd by simp
  have wfc: "wf_node c" using wf_child [of es "(n, c)"] Cons.prems(1) nd e by simp
  let ?P = "\<lambda>r. path_name r = nm \<and> (\<exists>r'. r' \<noteq> [] \<and> n # rel = r @ r')"
  let ?P' = "\<lambda>r. path_name r = nm \<and> (\<exists>r'. r' \<noteq> [] \<and> rel = r @ r')"
  let ?h = "\<lambda>e. (if ?P [fst e] then 1 else 0)
                + length (filter ?P (map ((#) (fst e)) (walk [] (snd e))))"
  have other: "\<forall>e \<in> set es. fst e \<noteq> n \<longrightarrow> ?h e = 0"
  proof (intro ballI impI)
    fix e assume "e \<in> set es" "fst e \<noteq> n"
    have "\<not> ?P [fst e]" using \<open>fst e \<noteq> n\<close> by auto
    moreover have "filter ?P (map ((#) (fst e)) (walk [] (snd e))) = []"
      unfolding filter_empty_conv using \<open>fst e \<noteq> n\<close> by auto
    ultimately show "?h e = 0" by (simp only: if_False list.size add_0)
  qed
  have inner: "filter ?P (map ((#) n) (walk [] c)) = map ((#) n) (filter ?P' (walk [] c))"
  proof -
    have "?P (n # r) = ?P' r" if "r \<in> set (walk [] c)" for r
      using walk_nonempty [OF that] by (simp add: path_name_def)
    then show ?thesis by (simp add: filter_map comp_def cong: filter_cong)
  qed
  have top: "?P [n] \<longleftrightarrow> n = nm \<and> rel \<noteq> []"
    by (auto simp: path_name_def)
  have "length (filter ?P (walk [] nd))
          = length (filter ?P (map (\<lambda>e. [fst e]) es))
            + sum_list (map (\<lambda>e. length (filter ?P (map ((#) (fst e)) (walk [] (snd e))))) es)"
    unfolding nd walk_Dir filter_append length_append length_filter_concat map_map comp_def ..
  also have "length (filter ?P (map (\<lambda>e. [fst e]) es))
          = sum_list (map (\<lambda>e. if ?P [fst e] then 1 else 0) es)"
    unfolding sum_list_indicator filter_map length_map comp_def ..
  also have "sum_list (map (\<lambda>e. if ?P [fst e] then 1 else 0) es)
            + sum_list (map (\<lambda>e. length (filter ?P (map ((#) (fst e)) (walk [] (snd e))))) es)
          = sum_list (map ?h es)"
    by (simp add: sum_list_addf)
  also have "\<dots> = ?h (n, c)"
    by (rule sum_list_one_entry [OF d e other])
  also have "\<dots> = (if ?P [n] then 1 else 0) + length (filter ?P (map ((#) n) (walk [] c)))"
    by simp
  also have "\<dots> = (if n = nm \<and> rel \<noteq> [] then 1 else 0) + length (filter ?P' (walk [] c))"
    unfolding inner top length_map ..
  also have "\<dots> = (if n = nm \<and> rel \<noteq> [] then 1 else 0) + length (filter (\<lambda>n. n = nm) (butlast rel))"
    using Cons.IH [OF wfc c(2)] by simp
  also have "\<dots> = length (filter (\<lambda>n. n = nm) (butlast (n # rel)))"
    by simp
  finally show ?case .
qed

lemma length_filter_eq_distinct:
  "distinct xs \<Longrightarrow> x \<in> set xs \<Longrightarrow> length (filter (\<lambda>t. t = x) xs) = 1"
  by (induction xs) (auto simp: filter_empty_conv)

text \<open>The files one \<open>__fixtures__\<close> directory contributes under a given path: one if the
  directory is an ancestor of the file, none otherwise.\<close>

lemma fixtures_dir_contribution:
  assumes wf: "wf_node fs" and root: "resolve fs pr = Some root"
    and isf: "is_file fs (pr @ rel)" and r: "r \<in> set (walk [] root)"
  shows "length (filter (\<lambda>f. path f = pr @ rel)
           (if \<not> is_dir fs (pr @ r) then []
            else map (\<lambda>file. \<lparr>package = package_of (pr @ r) pr, path = file\<rparr>)
                   (filter (is_file fs) (rglob fs (pr @ r) ''*''))))
         = (if \<exists>r'. r' \<noteq> [] \<and> rel = r @ r' then 1 else 0)"
proof (cases "\<exists>r'. r' \<noteq> [] \<and> rel = r @ r'")
  case True
  then obtain r' where r': "r' \<noteq> []" "rel = r @ r'" by blast
  obtain b where b: "resolve fs (pr @ r @ r') = Some (File b)"
    using isf r'(2) by (auto simp: is_file_def split: option.splits node.splits)
  then obtain n where n: "resolve fs (pr @ r) = Some n" "resolve n r' = Some (File b)"
    using resolve_append [of fs "pr @ r" r'] by (auto split: option.splits)
  obtain es where es: "n = Dir es" using n(2) r'(1) by (cases n; cases r') simp_all
  have dir: "is_dir fs (pr @ r)" using n(1) es by (simp add: is_dir_def)
  have "wf_node n" using wf_resolve [OF wf n(1)] .
  then have dist: "distinct (walk [] n)" by (rule distinct_walk)
  have mem: "r' \<in> set (walk [] n)" using resolve_in_walk [OF r'(1) n(2)] .
  have sel: "\<And>t. (is_file fs (pr @ r @ t) \<and> r @ t = rel) = (t = r')"
    using r'(2) isf by auto
  have "length (filter (\<lambda>f. path f = pr @ rel)
           (map (\<lambda>file. \<lparr>package = package_of (pr @ r) pr, path = file\<rparr>)
                   (filter (is_file fs) (rglob fs (pr @ r) ''*''))))
        = length (filter (\<lambda>t. t = r') (walk [] n))"
    unfolding rglob_star [OF n(1)] filter_map filter_filter length_map comp_def
    by (simp add: sel)
  also have "\<dots> = 1" using length_filter_eq_distinct [OF dist mem] .
  finally show ?thesis using dir True by simp
next
  case False
  have "path f \<noteq> pr @ rel"
    if f: "f \<in> set (map (\<lambda>file. \<lparr>package = package_of (pr @ r) pr, path = file\<rparr>)
                   (filter (is_file fs) (rglob fs (pr @ r) ''*'')))" for f
  proof -
    have "path f \<in> set (rglob fs (pr @ r) ''*'')" using f by auto
    then obtain t where "t \<noteq> []" "path f = (pr @ r) @ t" using rglob_below by blast
    then show ?thesis using False by auto
  qed
  then have "filter (\<lambda>f. path f = pr @ rel)
           (map (\<lambda>file. \<lparr>package = package_of (pr @ r) pr, path = file\<rparr>)
                   (filter (is_file fs) (rglob fs (pr @ r) ''*''))) = []"
    unfolding filter_empty_conv by blast
  then show ?thesis using False by simp
qed

lemma iter_upstream_fixtures_count:
  assumes wf: "wf_node fs" and isf: "is_file fs (pr @ rel)" and pr: "pr = ai_root @ [''packages'']"
  shows "length (filter (\<lambda>f. path f = pr @ rel) (iter_upstream_fixtures fs ai_root))
           = length (filter (\<lambda>n. n = ''__fixtures__'') (butlast rel))"
proof -
  obtain b where b: "resolve fs (pr @ rel) = Some (File b)"
    using isf by (auto simp: is_file_def split: option.splits node.splits)
  then obtain root where root: "resolve fs pr = Some root" "resolve root rel = Some (File b)"
    using resolve_append [of fs pr rel] by (auto split: option.splits)
  have wfr: "wf_node root" using wf_resolve [OF wf root(1)] .
  let ?Q = "\<lambda>f. path f = pr @ rel"
  let ?G = "\<lambda>d. if \<not> is_dir fs d then []
            else map (\<lambda>file. \<lparr>package = package_of d pr, path = file\<rparr>)
                   (filter (is_file fs) (rglob fs d ''*''))"
  let ?W = "filter (\<lambda>r. path_name r = ''__fixtures__'') (walk [] root)"
  have D: "rglob fs pr ''__fixtures__'' = map ((@) pr) ?W"
    by (rule rglob_named [OF root(1)]) simp
  have "length (filter ?Q (iter_upstream_fixtures fs ai_root))
          = length (filter ?Q (concat (map ?G (rglob fs pr ''__fixtures__''))))"
    unfolding iter_upstream_fixtures_def Let_def pr [symmetric] filter_sort length_sort ..
  also have "\<dots> = sum_list (map (\<lambda>r. length (filter ?Q (?G (pr @ r)))) ?W)"
    unfolding D length_filter_concat map_map comp_def ..
  also have "\<dots> = sum_list (map (\<lambda>r. if \<exists>r'. r' \<noteq> [] \<and> rel = r @ r' then 1 else 0) ?W)"
  proof (rule arg_cong [where f = sum_list], rule map_cong [OF refl])
    fix r assume "r \<in> set ?W"
    then have "r \<in> set (walk [] root)" by simp
    then show "length (filter ?Q (?G (pr @ r))) = (if \<exists>r'. r' \<noteq> [] \<and> rel = r @ r' then 1 else 0)"
      by (rule fixtures_dir_contribution [OF wf root(1) isf])
  qed
  also have "\<dots> = length (filter (\<lambda>r. \<exists>r'. r' \<noteq> [] \<and> rel = r @ r') ?W)"
    by (rule sum_list_indicator)
  also have "\<dots> = length (filter (\<lambda>r. path_name r = ''__fixtures__'' \<and> (\<exists>r'. r' \<noteq> [] \<and> rel = r @ r'))
                          (walk [] root))"
    unfolding filter_filter by (simp cong: conj_cong add: conj_commute)
  also have "\<dots> = length (filter (\<lambda>n. n = ''__fixtures__'') (butlast rel))"
    by (rule count_named_ancestors [OF wfr root(2)])
  finally show ?thesis .
qed

lemma iter_upstream_fixtures_package:
  assumes "f \<in> set (iter_upstream_fixtures fs ai_root)" "path f = (ai_root @ [''packages'']) @ rel"
  shows "package f = hd rel"
proof -
  obtain d where d: "d \<in> set (rglob fs (ai_root @ [''packages'']) ''__fixtures__'')"
    "path f \<in> set (rglob fs d ''*'')" "package f = package_of d (ai_root @ [''packages''])"
    using iter_upstream_fixtures_mem [OF assms(1)] by blast
  obtain r where r: "r \<noteq> []" "d = (ai_root @ [''packages'']) @ r"
    using rglob_below [OF d(1)] by blast
  obtain t where t: "path f = d @ t" using rglob_below [OF d(2)] by blast
  have "rel = r @ t" using assms(2) r(2) t by simp
  then have "hd rel = hd r" using r(1) by simp
  then show ?thesis
    using d(3) r package_of_below [of r "ai_root @ [''packages'']"] by simp
qed

lemma not_distinct_if_two_equal:
  assumes "2 \<le> length (filter P xs)" "\<forall>y \<in> set xs. P y \<longrightarrow> y = x"
  shows "\<not> distinct xs"
proof
  assume "distinct xs"
  then have d: "distinct (filter P xs)" by simp
  obtain a b rest where ab: "filter P xs = a # b # rest"
    using assms(1) by (cases "filter P xs"; cases "tl (filter P xs)") auto
  have "a \<in> set (filter P xs)" "b \<in> set (filter P xs)" using ab by simp_all
  then have "a = x" "b = x" using assms(2) by auto
  then show False using d ab by simp
qed

text \<open>
  C10. In a tree without two siblings of one name, take any regular file below the
  packages root, at the path \<open>rel\<close> from it. The enumerator's output contains the file's
  path once for each directory named \<open>__fixtures__\<close> among the file's ancestors below
  the packages root, each time with the package \<open>hd rel\<close>. So a file below a
  \<open>__fixtures__\<close> directory nested in another one appears at least twice, and the output
  list has duplicates.
\<close>

theorem nested_fixtures_counted_per_ancestor:
  assumes "wf_node fs" and "is_file fs (ai_root @ [''packages''] @ rel)"
    and "k = length (filter (\<lambda>n. n = ''__fixtures__'') (butlast rel))"
  shows "length (filter (\<lambda>f. path f = ai_root @ [''packages''] @ rel)
                   (iter_upstream_fixtures fs ai_root)) = k
    \<and> count (mset (iter_upstream_fixtures fs ai_root))
          \<lparr>package = hd rel, path = ai_root @ [''packages''] @ rel\<rparr> = k
    \<and> (2 \<le> k \<longrightarrow> \<not> distinct (iter_upstream_fixtures fs ai_root))"
proof -
  let ?pr = "ai_root @ [''packages'']"
  let ?out = "iter_upstream_fixtures fs ai_root"
  let ?x = "\<lparr>package = hd rel, path = ai_root @ [''packages''] @ rel\<rparr>"
  have isf: "is_file fs (?pr @ rel)" using assms(2) by simp
  have n: "length (filter (\<lambda>f. path f = ?pr @ rel) ?out) = k"
    unfolding assms(3) by (rule iter_upstream_fixtures_count [OF assms(1) isf refl])
  have same: "\<forall>f \<in> set ?out. path f = ?pr @ rel \<longrightarrow> f = ?x"
    using iter_upstream_fixtures_package [of _ fs ai_root rel] by auto
  then have "filter (\<lambda>f. path f = ?pr @ rel) ?out = filter (\<lambda>f. ?x = f) ?out"
    by (intro filter_cong) auto
  then have c: "count (mset ?out) ?x = k"
    using n by (simp add: count_mset count_list_eq_length_filter)
  have "2 \<le> k \<longrightarrow> \<not> distinct ?out"
    using not_distinct_if_two_equal [of "\<lambda>f. path f = ?pr @ rel" ?out ?x] n same by blast
  then show ?thesis using n c by simp
qed

theorem nested_fixtures_counted_per_ancestor_witness:
  "wf_node fs_nested
   \<and> is_file fs_nested
        ([''ai''] @ [''packages''] @ [''openai'', ''__fixtures__'', ''sub'', ''__fixtures__'', ''b.json''])
   \<and> length (filter (\<lambda>f. path f = [''ai''] @ [''packages'']
                       @ [''openai'', ''__fixtures__'', ''sub'', ''__fixtures__'', ''b.json''])
               (iter_upstream_fixtures fs_nested [''ai''])) = 2
   \<and> \<not> distinct (iter_upstream_fixtures fs_nested [''ai''])"
proof -
  have wf: "wf_node fs_nested"
    by code_simp
  have isf: "is_file fs_nested
        ([''ai''] @ [''packages''] @ [''openai'', ''__fixtures__'', ''sub'', ''__fixtures__'', ''b.json''])"
    by code_simp
  have k: "length (filter (\<lambda>n. n = ''__fixtures__'')
             (butlast [''openai'', ''__fixtures__'', ''sub'', ''__fixtures__'', ''b.json''])) = 2"
    by simp
  show ?thesis
    using wf isf nested_fixtures_counted_per_ancestor [OF wf isf refl] unfolding k
    by simp
qed

end
